theory Spec2Isabelle
  imports Complex_Main
begin

section \<open>Strings of the runtime\<close>

text \<open>
  The program is a TypeScript module (src/App.tsx). Its strings are sequences of code
  units; here a string is a list of 8-bit characters, read as the code units U+0000 to
  U+00FF. The library functions the module calls on strings (\<open>trim\<close>,
  \<open>toLowerCase\<close>, \<open>split\<close>, the regular expressions) are written out for
  that range as ECMAScript defines them.
\<close>

definition in_range :: "char \<Rightarrow> char \<Rightarrow> char \<Rightarrow> bool" where
  "in_range lo hi c = ((of_char lo :: nat) \<le> of_char c \<and> (of_char c :: nat) \<le> of_char hi)"

text \<open>White space and line terminators of ECMAScript below U+0100: TAB, LF, VT, FF, CR,
  SP and NBSP. Both \<open>trim\<close> and the class \<open>\s\<close> use this set.\<close>

definition isWhiteSpace :: "char \<Rightarrow> bool" where
  "isWhiteSpace c = (c \<in> set [CHR 0x09, CHR 0x0A, CHR 0x0B, CHR 0x0C, CHR 0x0D, CHR 0x20, CHR 0xA0])"

definition isLineTerminator :: "char \<Rightarrow> bool" where
  "isLineTerminator c = (c = CHR 0x0A \<or> c = CHR 0x0D)"

definition trim :: "string \<Rightarrow> string" where
  "trim s = rev (dropWhile isWhiteSpace (rev (dropWhile isWhiteSpace s)))"

text \<open>\<open>toLowerCase\<close>: A-Z and the capital letters U+00C0 to U+00DE (the multiplication
  sign U+00D7 apart) move up by 32; every other code unit below U+0100 is kept.\<close>

definition lower_char :: "char \<Rightarrow> char" where
  "lower_char c = (let n = (of_char c :: nat) in
     if (65 \<le> n \<and> n \<le> 90) \<or> (192 \<le> n \<and> n \<le> 222 \<and> n \<noteq> 215)
     then char_of (n + 32) else c)"

definition toLowerCase :: "string \<Rightarrow> string" where
  "toLowerCase s = map lower_char s"

subsection \<open>The regular expressions the module uses\<close>

text \<open>
  Every regular expression of the module is a sequence of atoms, each a character class
  taken once or with the quantifier \<open>+\<close>. \<open>matchHere\<close> is the backtracking matcher
  at a fixed start position (the longer repetition is tried first), \<open>regexTest\<close> is
  \<open>RegExp.prototype.test\<close>: a match starting anywhere.
\<close>

datatype atom = Once "char \<Rightarrow> bool" | Many "char \<Rightarrow> bool"

fun matchHere :: "atom list \<Rightarrow> string \<Rightarrow> bool" where
  "matchHere [] s = True"
| "matchHere (Once P # as) [] = False"
| "matchHere (Once P # as) (c # cs) = (if P c then matchHere as cs else False)"
| "matchHere (Many P # as) [] = False"
| "matchHere (Many P # as) (c # cs) =
     (if P c then (if matchHere (Many P # as) cs then True else matchHere as cs) else False)"

fun regexTest :: "atom list \<Rightarrow> string \<Rightarrow> bool" where
  "regexTest as [] = matchHere as []"
| "regexTest as (c # cs) = (if matchHere as (c # cs) then True else regexTest as cs)"

text \<open>\<open>s.replace(/C+/g, r)\<close> for a character class \<open>C\<close>: every maximal run of
  characters of the class is replaced by \<open>r\<close>.\<close>

function replaceRuns :: "(char \<Rightarrow> bool) \<Rightarrow> string \<Rightarrow> string \<Rightarrow> string" where
  "replaceRuns P r [] = []"
| "replaceRuns P r (c # cs) =
     (if P c then r @ replaceRuns P r (dropWhile P cs) else c # replaceRuns P r cs)"
  by pat_completeness auto
termination
  by (relation "measure (\<lambda>(P, r, s). length s)")
     (auto simp: less_Suc_eq_le length_dropWhile_le)

text \<open>\<open>.\<close> is any character but a line terminator.\<close>

definition dot :: "char \<Rightarrow> bool" where
  "dot c = (\<not> isLineTerminator c)"

definition lit :: "char \<Rightarrow> char \<Rightarrow> bool" where
  "lit x c = (c = x)"

text \<open>\<open>/.+@.+\..+/\<close>\<close>

definition emailRegex :: "atom list" where
  "emailRegex = [Many dot, Once (lit CHR ''@''), Many dot, Once (lit CHR ''.''), Many dot]"

section \<open>Utilities: slugify and validateMeta\<close>

text \<open>The class \<open>[a-z0-9\s-]\<close>; \<open>slugify\<close> deletes every character outside it.\<close>

definition slugKeep :: "char \<Rightarrow> bool" where
  "slugKeep c = (in_range CHR ''a'' CHR ''z'' c \<or> in_range CHR ''0'' CHR ''9'' c
                 \<or> isWhiteSpace c \<or> c = CHR ''-'')"

definition slugify :: "string \<Rightarrow> string" where
  "slugify s =
     replaceRuns (lit CHR ''-'') ''-''
       (replaceRuns isWhiteSpace ''-''
         (trim (filter slugKeep (toLowerCase s))))"

section \<open>Data model\<close>

text \<open>The type \<open>{ q: string; a: string; tags?: string[] }\<close> of an imported or exported
  pair, and \<open>QAPair\<close>, which adds the identifier (the field \<open>id\<close> of the source).\<close>

record QA =
  q :: string
  a :: string
  tags :: "string list option"

record QAPair = QA +
  id' :: string

text \<open>A JavaScript number: a finite value or one of the three others. A finite value is
  kept as the exact rational it denotes; the runtime rounds a literal to the nearest
  double, which no function below looks at.\<close>

datatype number = Finite rat | NaN | PosInfinity | NegInfinity

record ExportBot =
  name :: string
  lab :: string
  owner_email :: string
  description :: "string option"
  slug :: string
  model :: string
  embed_model :: string
  temperature :: number
  top_p :: number

record ExportPayload =
  bot' :: ExportBot
  pairs :: "QA list"
  created_at :: string
  version :: string

record BotMeta =
  lab :: string
  botName :: string
  ownerEmail :: string
  description :: "string option"
  baseModel :: string
  embedModel :: string
  temperature :: number
  topP :: number

definition validateMeta :: "BotMeta \<Rightarrow> bool" where
  "validateMeta meta =
     (length (trim (lab meta)) > 0 \<and> length (trim (botName meta)) > 0
      \<and> regexTest emailRegex (ownerEmail meta))"

section \<open>Payload assembly and the editing handlers\<close>

text \<open>\<open>s || d\<close> on strings: the empty string is the only falsy one.\<close>

definition orElse :: "string \<Rightarrow> string \<Rightarrow> string" where
  "orElse s d = (if s = [] then d else s)"

definition slugOf :: "BotMeta \<Rightarrow> string" where
  "slugOf meta = slugify (orElse (lab meta) ''lab'') @ ''-'' @ slugify (orElse (botName meta) ''bot'')"

text \<open>\<open>exportPayload\<close>; the third argument is \<open>new Date().toISOString()\<close>. The fields
  are typed, so the optional chaining and the \<open>typeof\<close> tests of the source always take
  their first branch; an absent description is \<open>None\<close>.\<close>

definition exportPair :: "QAPair \<Rightarrow> QA" where
  "exportPair p =
     \<lparr>q = trim (orElse (q p) []),
      a = trim (orElse (a p) []),
      tags = (case tags p of None \<Rightarrow> None | Some ts \<Rightarrow> if length ts > 0 then Some ts else None)\<rparr>"

definition exportPayload :: "BotMeta \<Rightarrow> QAPair list \<Rightarrow> string \<Rightarrow> ExportPayload" where
  "exportPayload meta prs now =
     \<lparr>bot' =
        \<lparr>name = orElse (trim (botName meta)) ''Untitled Bot'',
         ExportBot.lab = orElse (trim (lab meta)) [],
         owner_email = orElse (trim (ownerEmail meta)) [],
         ExportBot.description =
           (case description meta of None \<Rightarrow> None
            | Some d \<Rightarrow> if trim d = [] then None else Some (trim d)),
         slug = slugOf meta,
         model = orElse (baseModel meta) ''qwen2.5:7b-instruct'',
         embed_model = orElse (embedModel meta) ''nomic-embed-text'',
         ExportBot.temperature = temperature meta,
         top_p = topP meta\<rparr>,
      pairs = map exportPair prs,
      created_at = now,
      version = ''2025-09-16''\<rparr>"

definition isValid :: "BotMeta \<Rightarrow> QAPair list \<Rightarrow> bool" where
  "isValid meta prs =
     (let hasMeta = validateMeta meta;
          hasPairs = list_ex (\<lambda>p. trim (orElse (q p) []) \<noteq> [] \<and> trim (orElse (a p) []) \<noteq> []) prs
      in hasMeta \<and> hasPairs)"

text \<open>A \<open>Partial<QAPair>\<close>: each field is given or not.\<close>

record PairPatch =
  patch_id :: "string option"
  patch_q :: "string option"
  patch_a :: "string option"
  patch_tags :: "string list option option"

definition applyPatch :: "PairPatch \<Rightarrow> QAPair \<Rightarrow> QAPair" where
  "applyPatch patch p =
     \<lparr>q = (case patch_q patch of None \<Rightarrow> q p | Some x \<Rightarrow> x),
      a = (case patch_a patch of None \<Rightarrow> a p | Some x \<Rightarrow> x),
      tags = (case patch_tags patch of None \<Rightarrow> tags p | Some x \<Rightarrow> x),
      id' = (case patch_id patch of None \<Rightarrow> id' p | Some x \<Rightarrow> x)\<rparr>"

definition updatePair :: "string \<Rightarrow> PairPatch \<Rightarrow> QAPair list \<Rightarrow> QAPair list" where
  "updatePair i patch prev = map (\<lambda>p. if id' p = i then applyPatch patch p else p) prev"

text \<open>\<open>addPair\<close>; the first argument is the value of \<open>uid()\<close>.\<close>

definition addPair :: "string \<Rightarrow> QAPair list \<Rightarrow> QAPair list" where
  "addPair fresh prev = prev @ [\<lparr>q = [], a = [], tags = Some [], id' = fresh\<rparr>]"

definition removePair :: "string \<Rightarrow> QAPair list \<Rightarrow> QAPair list" where
  "removePair i prev = (if length prev \<le> 1 then prev else filter (\<lambda>p. id' p \<noteq> i) prev)"

fun findIndex :: "('x \<Rightarrow> bool) \<Rightarrow> 'x list \<Rightarrow> nat option" where
  "findIndex P [] = None"
| "findIndex P (x # xs) = (if P x then Some 0 else map_option Suc (findIndex P xs))"

definition movePair :: "string \<Rightarrow> int \<Rightarrow> QAPair list \<Rightarrow> QAPair list" where
  "movePair i dir prev =
     (case findIndex (\<lambda>p. id' p = i) prev of
        None \<Rightarrow> prev
      | Some idx \<Rightarrow>
          let target = int idx + dir in
          if target < 0 \<or> target \<ge> int (length prev) then prev
          else
            let item = prev ! idx;
                clone = take idx prev @ drop (Suc idx) prev
            in take (nat target) clone @ [item] @ drop (nat target) clone)"

section \<open>Values and exceptions of the runtime\<close>

text \<open>
  The values \<open>JSON.parse\<close> returns, and \<open>undefined\<close>, which a property read gives for
  an absent key. An object is the list of its own properties in creation order, each
  key once. An exception is a value: \<open>Inl\<close> of the sum type is a \<open>throw\<close>.
\<close>

datatype jsvalue =
    JUndefined
  | JNull
  | JBool bool
  | JNum rat
  | JStr string
  | JArr "jsvalue list"
  | JObj "(string \<times> jsvalue) list"

datatype exn = SyntaxError | TypeError | Error string

definition bindE :: "exn + 'x \<Rightarrow> ('x \<Rightarrow> exn + 'y) \<Rightarrow> exn + 'y" where
  "bindE m f = (case m of Inl e \<Rightarrow> Inl e | Inr x \<Rightarrow> f x)"

text \<open>Running a list of computations in order; the first exception ends the run.\<close>

fun sequenceE :: "(exn + 'x) list \<Rightarrow> exn + 'x list" where
  "sequenceE [] = Inr []"
| "sequenceE (m # ms) = bindE m (\<lambda>x. bindE (sequenceE ms) (\<lambda>xs. Inr (x # xs)))"

definition truthy :: "jsvalue \<Rightarrow> bool" where
  "truthy v = (case v of JUndefined \<Rightarrow> False | JNull \<Rightarrow> False | JBool b \<Rightarrow> b
               | JNum r \<Rightarrow> r \<noteq> 0 | JStr s \<Rightarrow> s \<noteq> [] | JArr xs \<Rightarrow> True | JObj kvs \<Rightarrow> True)"

text \<open>\<open>typeof v === "object"\<close> and \<open>Array.isArray(v)\<close>\<close>

definition typeofObject :: "jsvalue \<Rightarrow> bool" where
  "typeofObject v = (case v of JNull \<Rightarrow> True | JArr xs \<Rightarrow> True | JObj kvs \<Rightarrow> True | _ \<Rightarrow> False)"

definition isArray :: "jsvalue \<Rightarrow> bool" where
  "isArray v = (case v of JArr xs \<Rightarrow> True | _ \<Rightarrow> False)"

text \<open>\<open>a || b\<close> and \<open>a ?? b\<close>\<close>

definition orJs :: "jsvalue \<Rightarrow> jsvalue \<Rightarrow> jsvalue" where
  "orJs x y = (if truthy x then x else y)"

definition nullish :: "jsvalue \<Rightarrow> jsvalue \<Rightarrow> jsvalue" where
  "nullish x y = (if x = JNull \<or> x = JUndefined then y else x)"

text \<open>
  \<open>k in v\<close> and \<open>v[k]\<close> for the property names the module uses (\<open>bot\<close>, \<open>pairs\<close>,
  \<open>tags\<close>, \<open>q\<close>, \<open>a\<close>, \<open>lab\<close> and so on). None of them is a built-in property of
  objects, arrays or primitive values, so only an object's own properties count.
  \<open>in\<close> is applied to objects and arrays only.
\<close>

definition hasProp :: "string \<Rightarrow> jsvalue \<Rightarrow> bool" where
  "hasProp k v = (case v of JObj kvs \<Rightarrow> k \<in> set (map fst kvs) | _ \<Rightarrow> False)"

definition getProp :: "jsvalue \<Rightarrow> string \<Rightarrow> jsvalue" where
  "getProp v k =
     (case v of
        JObj kvs \<Rightarrow> (case map_of kvs k of Some x \<Rightarrow> x | None \<Rightarrow> JUndefined)
      | _ \<Rightarrow> JUndefined)"

subsection \<open>Conversion to string\<close>

fun natDigits :: "nat \<Rightarrow> string" where
  "natDigits n =
     (if n < 10 then [''0123456789'' ! n]
      else natDigits (n div 10) @ [''0123456789'' ! (n mod 10)])"

declare natDigits.simps [simp del]

text \<open>Multiply the fraction \<open>p / d\<close> by ten until it is an integer, counting the steps.\<close>

function scaleUp :: "int \<Rightarrow> int \<Rightarrow> nat \<Rightarrow> int \<times> nat" where
  "scaleUp p d k =
     (if d \<le> 1 \<or> gcd d 10 = 1 then (p, k)
      else scaleUp (p * (10 div gcd d 10)) (d div gcd d 10) (Suc k))"
  by pat_completeness auto
termination
proof (relation "measure (\<lambda>(p, d, k). nat d)")
  show "wf (measure (\<lambda>(p, d, k). nat d))" by simp
next
  fix p d :: int and k :: nat
  assume a: "\<not> (d \<le> 1 \<or> gcd d 10 = 1)"
  have "gcd d 10 \<ge> 0" by simp
  moreover have "gcd d 10 \<noteq> 0" by simp
  ultimately have "gcd d 10 > 1" using a by linarith
  then have "d div gcd d 10 < d" using a by (simp add: int_div_less_self)
  then show "((p * (10 div gcd d 10), d div gcd d 10, Suc k), (p, d, k))
               \<in> measure (\<lambda>(p, d, k). nat d)"
    using a by simp
qed

declare scaleUp.simps [simp del]

function stripZeros :: "nat \<Rightarrow> nat \<Rightarrow> nat \<times> nat" where
  "stripZeros n z = (if n \<noteq> 0 \<and> n mod 10 = 0 then stripZeros (n div 10) (Suc z) else (n, z))"
  by pat_completeness auto
termination
  by (relation "measure (\<lambda>(n, z). n)") auto

declare stripZeros.simps [simp del]

text \<open>
  \<open>Number::toString\<close> of ECMAScript for a positive finite value: with the decimal
  digits \<open>ds\<close> of the value (no trailing zero), their number \<open>k\<close>, and the position
  \<open>n\<close> of the decimal point (the value is \<open>0.ds\<close> times ten to the \<open>n\<close>).
\<close>

definition formatDecimal :: "string \<Rightarrow> int \<Rightarrow> string" where
  "formatDecimal ds n =
     (let k = int (length ds) in
      if k \<le> n \<and> n \<le> 21 then ds @ replicate (nat (n - k)) CHR ''0''
      else if 0 < n \<and> n \<le> 21 then take (nat n) ds @ ''.'' @ drop (nat n) ds
      else if -6 < n \<and> n \<le> 0 then ''0.'' @ replicate (nat (- n)) CHR ''0'' @ ds
      else
        let e = n - 1;
            ex = (if e < 0 then ''-'' else ''+'') @ natDigits (nat \<bar>e\<bar>)
        in if k = 1 then ds @ ''e'' @ ex
           else take 1 ds @ ''.'' @ drop 1 ds @ ''e'' @ ex)"

definition positiveToString :: "rat \<Rightarrow> string" where
  "positiveToString v =
     (let (p, d) = quotient_of v;
          (m, k) = scaleUp p d 0;
          (s, z) = stripZeros (nat m) 0;
          ds = natDigits s
      in formatDecimal ds (int (length ds) + int z - int k))"

definition Number_toString :: "rat \<Rightarrow> string" where
  "Number_toString r =
     (if r = 0 then ''0''
      else if r < 0 then ''-'' @ positiveToString (- r)
      else positiveToString r)"

fun join :: "string \<Rightarrow> string list \<Rightarrow> string" where
  "join sep [] = []"
| "join sep [x] = x"
| "join sep (x # y # ys) = x @ sep @ join sep (y # ys)"

text \<open>
  \<open>String(v)\<close>. An array is its elements joined by commas, \<open>null\<close> and \<open>undefined\<close>
  elements giving the empty string. An object is \<open>[object Object]\<close>, unless it has an
  own property \<open>toString\<close>: that value, coming from JSON, is not callable, and the
  conversion throws a TypeError.
\<close>

fun ToString :: "jsvalue \<Rightarrow> exn + string" where
  "ToString JUndefined = Inr ''undefined''"
| "ToString JNull = Inr ''null''"
| "ToString (JBool b) = Inr (if b then ''true'' else ''false'')"
| "ToString (JNum r) = Inr (Number_toString r)"
| "ToString (JStr s) = Inr s"
| "ToString (JArr xs) =
     bindE (sequenceE (map (\<lambda>x. if x = JNull \<or> x = JUndefined then Inr [] else ToString x) xs))
       (\<lambda>ss. Inr (join '','' ss))"
| "ToString (JObj kvs) =
     (if ''toString'' \<in> set (map fst kvs) then Inl TypeError else Inr ''[object Object]'')"

section \<open>Flexible JSON import\<close>

definition coerceStr :: "jsvalue \<Rightarrow> exn + string" where
  "coerceStr x =
     bindE (case x of JStr s \<Rightarrow> Inr s | _ \<Rightarrow> ToString (nullish x (JStr [])))
       (\<lambda>s. Inr (trim s))"

text \<open>\<open>xs.map(coerceStr).filter(Boolean)\<close>, then \<open>undefined\<close> for an empty result.\<close>

definition nonEmptyTags :: "string list \<Rightarrow> string list option" where
  "nonEmptyTags ss = (let ts = filter (\<lambda>s. s \<noteq> []) ss in if length ts = 0 then None else Some ts)"

definition qKeys :: "string list" where
  "qKeys = [''q'', ''question'', ''prompt'', ''ask'', ''query'', ''Q'']"

definition aKeys :: "string list" where
  "aKeys = [''a'', ''answer'', ''response'', ''text'', ''A'']"

definition extractQAFromObject :: "jsvalue \<Rightarrow> exn + QA option" where
  "extractQAFromObject obj =
     (if \<not> truthy obj \<or> \<not> typeofObject obj then Inr None
      else
        case (find (\<lambda>k. hasProp k obj) qKeys, find (\<lambda>k. hasProp k obj) aKeys) of
          (Some qKey, Some aKey) \<Rightarrow>
            bindE (coerceStr (getProp obj qKey)) (\<lambda>qs.
            bindE (coerceStr (getProp obj aKey)) (\<lambda>as.
              if qs = [] \<or> as = [] then Inr None
              else
                bindE (case getProp obj ''tags'' of
                         JArr ts \<Rightarrow> bindE (sequenceE (map coerceStr ts)) (\<lambda>ss. Inr (nonEmptyTags ss))
                       | _ \<Rightarrow> Inr None)
                  (\<lambda>tgs. Inr (Some \<lparr>q = qs, a = as, tags = tgs\<rparr>))))
        | _ \<Rightarrow> Inr None)"

text \<open>\<open>s.split(",")\<close>\<close>

fun splitComma :: "string \<Rightarrow> string list" where
  "splitComma [] = [[]]"
| "splitComma (c # cs) =
     (if c = CHR '','' then [] # splitComma cs
      else (case splitComma cs of l # ls \<Rightarrow> (c # l) # ls | [] \<Rightarrow> [[c]]))"

definition extractQAFromArray :: "jsvalue \<Rightarrow> exn + QA option" where
  "extractQAFromArray arr =
     (case arr of
        JArr xs \<Rightarrow>
          if length xs < 2 then Inr None
          else
            bindE (coerceStr (xs ! 0)) (\<lambda>qs.
            bindE (coerceStr (xs ! 1)) (\<lambda>as.
              if qs = [] \<or> as = [] then Inr None
              else
                bindE (if length xs \<ge> 3 then
                         (case xs ! 2 of
                            JArr ts \<Rightarrow> bindE (sequenceE (map coerceStr ts)) (\<lambda>ss. Inr (nonEmptyTags ss))
                          | other \<Rightarrow> bindE (coerceStr other) (\<lambda>s. Inr (nonEmptyTags (map trim (splitComma s)))))
                       else Inr None)
                  (\<lambda>tgs. Inr (Some \<lparr>q = qs, a = as, tags = tgs\<rparr>))))
      | _ \<Rightarrow> Inr None)"

text \<open>\<open>item => (Array.isArray(item) ? extractQAFromArray(item) : extractQAFromObject(item))\<close>
  mapped over an array, then \<open>.filter(Boolean)\<close>.\<close>

definition extractItem :: "jsvalue \<Rightarrow> exn + QA option" where
  "extractItem item = (if isArray item then extractQAFromArray item else extractQAFromObject item)"

definition extractAll :: "jsvalue list \<Rightarrow> exn + QA list" where
  "extractAll items = bindE (sequenceE (map extractItem items)) (\<lambda>rs. Inr (List.map_filter (\<lambda>r. r) rs))"

subsection \<open>JSON.parse\<close>

text \<open>
  The JSON grammar of ECMAScript, read by recursive descent. Each parser returns the
  value and the rest of the text, or \<open>None\<close> where the runtime throws a SyntaxError.
  An escape \<open>\uXXXX\<close> above U+00FF denotes a code unit outside the range of
  \<open>string\<close>: such a text is rejected, and that is where the model leaves the runtime.
\<close>

definition isJsonWs :: "char \<Rightarrow> bool" where
  "isJsonWs c = (c \<in> set [CHR 0x09, CHR 0x0A, CHR 0x0D, CHR 0x20])"

definition skipWs :: "string \<Rightarrow> string" where
  "skipWs s = dropWhile isJsonWs s"

definition isDigit :: "char \<Rightarrow> bool" where
  "isDigit c = in_range CHR ''0'' CHR ''9'' c"

definition digitVal :: "char \<Rightarrow> nat" where
  "digitVal c = of_char c - 48"

definition natOfDigits :: "string \<Rightarrow> nat" where
  "natOfDigits ds = foldl (\<lambda>n c. n * 10 + digitVal c) 0 ds"

definition hexVal :: "char \<Rightarrow> nat option" where
  "hexVal c =
     (if isDigit c then Some (of_char c - 48)
      else if in_range CHR ''a'' CHR ''f'' c then Some (of_char c - 87)
      else if in_range CHR ''A'' CHR ''F'' c then Some (of_char c - 55)
      else None)"

text \<open>The character after a backslash: \<open>" \ / b f n r t\<close>.\<close>

definition unescape :: "char \<Rightarrow> char option" where
  "unescape e =
     (if e = CHR 0x22 then Some (CHR 0x22)
      else if e = CHR 0x5C then Some (CHR 0x5C)
      else if e = CHR ''/'' then Some (CHR ''/'')
      else if e = CHR ''b'' then Some (CHR 0x08)
      else if e = CHR ''f'' then Some (CHR 0x0C)
      else if e = CHR ''n'' then Some (CHR 0x0A)
      else if e = CHR ''r'' then Some (CHR 0x0D)
      else if e = CHR ''t'' then Some (CHR 0x09)
      else None)"

definition consChar :: "char \<Rightarrow> (string \<times> string) option \<Rightarrow> (string \<times> string) option" where
  "consChar x r = map_option (\<lambda>(s, rest). (x # s, rest)) r"

text \<open>The characters of a string literal, after its opening quote, up to the closing one.\<close>

fun parseChars :: "string \<Rightarrow> (string \<times> string) option" where
  "parseChars [] = None"
| "parseChars (c # cs) =
     (if c = CHR 0x22 then Some ([], cs)
      else if c = CHR 0x5C then
        (case cs of
           [] \<Rightarrow> None
         | e # cs' \<Rightarrow>
             if e = CHR ''u'' then
               (case cs' of
                  h1 # h2 # h3 # h4 # rest \<Rightarrow>
                    (case (hexVal h1, hexVal h2, hexVal h3, hexVal h4) of
                       (Some x1, Some x2, Some x3, Some x4) \<Rightarrow>
                         let code = ((x1 * 16 + x2) * 16 + x3) * 16 + x4 in
                         if code < 256 then consChar (char_of code) (parseChars rest) else None
                     | _ \<Rightarrow> None)
                | _ \<Rightarrow> None)
             else (case unescape e of Some x \<Rightarrow> consChar x (parseChars cs') | None \<Rightarrow> None))
      else if (of_char c :: nat) < 32 then None
      else consChar c (parseChars cs))"

definition pow10 :: "int \<Rightarrow> rat" where
  "pow10 e = (if e \<ge> 0 then 10 ^ nat e else 1 / 10 ^ nat (- e))"

definition fracPart :: "string \<Rightarrow> (string \<times> string) option" where
  "fracPart s =
     (case s of
        [] \<Rightarrow> Some ([], s)
      | c # r \<Rightarrow>
          if c = CHR ''.'' then
            (let f = takeWhile isDigit r in if f = [] then None else Some (f, dropWhile isDigit r))
          else Some ([], s))"

definition expPart :: "string \<Rightarrow> (int \<times> string) option" where
  "expPart s =
     (case s of
        [] \<Rightarrow> Some (0, s)
      | c # r \<Rightarrow>
          if c = CHR ''e'' \<or> c = CHR ''E'' then
            (let (sg, r1) =
                   (case r of
                      [] \<Rightarrow> (1, r)
                    | x # r' \<Rightarrow> if x = CHR ''+'' then (1, r') else if x = CHR ''-'' then (- 1, r') else (1, r));
                 ds = takeWhile isDigit r1
             in if ds = [] then None else Some (sg * int (natOfDigits ds), dropWhile isDigit r1))
          else Some (0, s))"

definition parseNumber :: "string \<Rightarrow> (rat \<times> string) option" where
  "parseNumber s =
     (let (neg, s1) = (case s of [] \<Rightarrow> (False, s) | c # r \<Rightarrow> if c = CHR ''-'' then (True, r) else (False, s))
      in case s1 of
           [] \<Rightarrow> None
         | d # r \<Rightarrow>
             if \<not> isDigit d then None
             else
               let (ip, s2) = (if d = CHR ''0'' then ([d], r)
                               else (d # takeWhile isDigit r, dropWhile isDigit r))
               in case fracPart s2 of
                    None \<Rightarrow> None
                  | Some (fr, s3) \<Rightarrow>
                      (case expPart s3 of
                         None \<Rightarrow> None
                       | Some (ex, s4) \<Rightarrow>
                           Some ((if neg then - 1 else 1) * of_nat (natOfDigits (ip @ fr))
                                   * pow10 (ex - int (length fr)), s4)))"

fun stripPrefix :: "string \<Rightarrow> string \<Rightarrow> string option" where
  "stripPrefix [] s = Some s"
| "stripPrefix (p # ps) [] = None"
| "stripPrefix (p # ps) (c # cs) = (if p = c then stripPrefix ps cs else None)"

text \<open>Defining a property: a key already there keeps its place and takes the new value.\<close>

fun setProp :: "(string \<times> jsvalue) list \<Rightarrow> string \<Rightarrow> jsvalue \<Rightarrow> (string \<times> jsvalue) list" where
  "setProp [] k v = [(k, v)]"
| "setProp ((k', v') # kvs) k v = (if k' = k then (k, v) # kvs else (k', v') # setProp kvs k v)"

lemma length_skipWs [termination_simp]: "length (skipWs s) \<le> length s"
  by (simp add: skipWs_def length_dropWhile_le)

lemma skipWs_Cons_length: "skipWs s = c # cs \<Longrightarrow> length cs < length s"
  using length_skipWs[of s] by simp

lemma consChar_Some: "consChar x r = Some (s, rest) \<Longrightarrow> \<exists>s'. r = Some (s', rest)"
  by (cases r) (auto simp: consChar_def)

lemma parseChars_length: "parseChars s = Some (r, rest) \<Longrightarrow> length rest < length s"
proof (induction s arbitrary: r rule: parseChars.induct)
  case 1
  then show ?case by simp
next
  case (2 c cs)
  show ?case
  proof (cases "c = CHR 0x22")
    case True
    with 2(4) show ?thesis by simp
  next
    case nq: False
    show ?thesis
    proof (cases "c = CHR 0x5C")
      case False
      with nq 2(4) obtain r' where "parseChars cs = Some (r', rest)"
        by (auto split: if_splits dest: consChar_Some)
      with 2(3)[OF nq False] 2(4) nq False have "length rest < length cs"
        by (auto split: if_splits)
      then show ?thesis by simp
    next
      case bs: True
      with nq 2(4) obtain e cs' where cs: "cs = e # cs'" by (cases cs) auto
      show ?thesis
      proof (cases "e = CHR ''u''")
        case False
        with nq bs cs 2(4) obtain x r' where x: "unescape e = Some x" "parseChars cs' = Some (r', rest)"
          by (auto split: option.splits dest: consChar_Some)
        with 2(2)[OF nq bs cs False x(1)] have "length rest < length cs'" by simp
        then show ?thesis using cs by simp
      next
        case True
        with nq bs cs 2(4) obtain h1 h2 h3 h4 tl' where t: "cs' = h1 # h2 # h3 # h4 # tl'"
          by (auto split: list.splits)
        with nq bs cs True 2(4) obtain x1 x2 x3 x4 r' where
          h: "hexVal h1 = Some x1" "hexVal h2 = Some x2" "hexVal h3 = Some x3" "hexVal h4 = Some x4"
            "((x1 * 16 + x2) * 16 + x3) * 16 + x4 < 256"
            "parseChars tl' = Some (r', rest)"
          by (auto simp: Let_def split: option.splits if_splits dest: consChar_Some)
        have "length rest < length tl'"
          using 2(1)[OF nq bs cs True] t h by auto
        then show ?thesis using cs t by simp
      qed
    qed
  qed
qed

text \<open>
  A value, the elements of an array after its opening bracket, the members of an object
  after its opening brace. The tests \<open>length r < length s\<close> only make the recursion
  visibly well-founded: a parsed value always leaves a shorter text.
\<close>

function parseValue :: "string \<Rightarrow> (jsvalue \<times> string) option"
  and parseElements :: "string \<Rightarrow> jsvalue list \<Rightarrow> (jsvalue \<times> string) option"
  and parseMembers :: "string \<Rightarrow> (string \<times> jsvalue) list \<Rightarrow> (jsvalue \<times> string) option"
where
  "parseValue s =
     (case skipWs s of
        [] \<Rightarrow> None
      | c # cs \<Rightarrow>
          if c = CHR ''{'' then
            (case skipWs cs of
               [] \<Rightarrow> None
             | d # ds \<Rightarrow> if d = CHR ''}'' then Some (JObj [], ds) else parseMembers cs [])
          else if c = CHR ''['' then
            (case skipWs cs of
               [] \<Rightarrow> None
             | d # ds \<Rightarrow> if d = CHR '']'' then Some (JArr [], ds) else parseElements cs [])
          else if c = CHR 0x22 then map_option (\<lambda>(str, r). (JStr str, r)) (parseChars cs)
          else if c = CHR ''t'' then map_option (\<lambda>r. (JBool True, r)) (stripPrefix ''true'' (c # cs))
          else if c = CHR ''f'' then map_option (\<lambda>r. (JBool False, r)) (stripPrefix ''false'' (c # cs))
          else if c = CHR ''n'' then map_option (\<lambda>r. (JNull, r)) (stripPrefix ''null'' (c # cs))
          else map_option (\<lambda>(x, r). (JNum x, r)) (parseNumber (c # cs)))"
| "parseElements s acc =
     (case parseValue s of
        None \<Rightarrow> None
      | Some (v, r) \<Rightarrow>
          if length r < length s then
            (case skipWs r of
               [] \<Rightarrow> None
             | c # r' \<Rightarrow>
                 if c = CHR '','' then parseElements r' (acc @ [v])
                 else if c = CHR '']'' then Some (JArr (acc @ [v]), r')
                 else None)
          else None)"
| "parseMembers s acc =
     (case skipWs s of
        [] \<Rightarrow> None
      | c # cs \<Rightarrow>
          if c = CHR 0x22 then
            (case parseChars cs of
               None \<Rightarrow> None
             | Some (k, r) \<Rightarrow>
                 (case skipWs r of
                    [] \<Rightarrow> None
                  | d # r1 \<Rightarrow>
                      if d = CHR '':'' then
                        (case parseValue r1 of
                           None \<Rightarrow> None
                         | Some (v, r2) \<Rightarrow>
                             if length r2 < length r1 then
                               (case skipWs r2 of
                                  [] \<Rightarrow> None
                                | e # r3 \<Rightarrow>
                                    if e = CHR '','' then parseMembers r3 (setProp acc k v)
                                    else if e = CHR ''}'' then Some (JObj (setProp acc k v), r3)
                                    else None)
                             else None)
                      else None))
          else None)"
  by pat_completeness auto
termination
proof (relation "measure (\<lambda>x. case x of
           Inl s \<Rightarrow> 2 * length s
         | Inr (Inl (s, acc)) \<Rightarrow> 2 * length s + 1
         | Inr (Inr (s, acc)) \<Rightarrow> 2 * length s + 1)", goal_cases)
  case 1
  then show ?case by simp
next
  case (2 s c cs d ds)
  then show ?case using skipWs_Cons_length[of s c cs] by simp
next
  case (3 s c cs d ds)
  then show ?case using skipWs_Cons_length[of s c cs] by simp
next
  case (4 s acc)
  then show ?case by simp
next
  case (5 s acc x v r c r')
  then show ?case using skipWs_Cons_length[of r c r'] by simp
next
  case (6 s acc c cs x k r d r1)
  then show ?case
    using skipWs_Cons_length[of s c cs] skipWs_Cons_length[of r d r1] parseChars_length[of cs k r]
    by simp
next
  case (7 s acc c cs x k r d r1 y v r2 e r3)
  then show ?case
    using skipWs_Cons_length[of s c cs] skipWs_Cons_length[of r d r1] parseChars_length[of cs k r]
      skipWs_Cons_length[of r2 e r3]
    by simp
qed

declare parseValue.simps [simp del] parseElements.simps [simp del] parseMembers.simps [simp del]

definition JSON_parse :: "string \<Rightarrow> exn + jsvalue" where
  "JSON_parse text =
     (case parseValue text of
        None \<Rightarrow> Inl SyntaxError
      | Some (v, r) \<Rightarrow> if skipWs r = [] then Inr v else Inl SyntaxError)"

subsection \<open>parseAnyQAPairs\<close>

record Imported =
  metaPatch :: "BotMeta option"
  pairs :: "QA list"

definition arrayItems :: "jsvalue \<Rightarrow> jsvalue list" where
  "arrayItems v = (case v of JArr xs \<Rightarrow> xs | _ \<Rightarrow> [])"

text \<open>The object literal \<open>metaPatch\<close> of the full-export branch, its fields evaluated in
  the order they are written.\<close>

definition metaPatchOf :: "jsvalue \<Rightarrow> exn + BotMeta" where
  "metaPatchOf botv =
     bindE (coerceStr (orJs (getProp botv ''lab'') (JStr []))) (\<lambda>l.
     bindE (coerceStr (orJs (getProp botv ''name'') (JStr []))) (\<lambda>n.
     bindE (coerceStr (orJs (getProp botv ''owner_email'') (JStr []))) (\<lambda>e.
     bindE (coerceStr (orJs (getProp botv ''description'') (JStr []))) (\<lambda>d.
     bindE (coerceStr (orJs (getProp botv ''model'') (JStr ''qwen2.5:7b-instruct''))) (\<lambda>bm.
     bindE (coerceStr (orJs (getProp botv ''embed_model'') (JStr ''nomic-embed-text''))) (\<lambda>em.
       Inr \<lparr>lab = l, botName = n, ownerEmail = e, description = Some d,
            baseModel = bm, embedModel = em,
            temperature = (case getProp botv ''temperature'' of JNum r \<Rightarrow> Finite r | _ \<Rightarrow> Finite (2 / 10)),
            topP = (case getProp botv ''top_p'' of JNum r \<Rightarrow> Finite r | _ \<Rightarrow> Finite (95 / 100))\<rparr>))))))"

definition wrapKeys :: "string list" where
  "wrapKeys = [''pairs'', ''data'', ''faqs'', ''items'', ''records'']"

text \<open>
  The \<open>try\<close> block: \<open>Inl\<close> when it throws, \<open>Inr (Some r)\<close> when it returns \<open>r\<close>,
  \<open>Inr None\<close> when it runs to its end without returning.
\<close>

definition tryBlock :: "string \<Rightarrow> exn + Imported option" where
  "tryBlock jsonText =
     bindE (JSON_parse jsonText) (\<lambda>data.
       if truthy data \<and> typeofObject data \<and> hasProp ''bot'' data \<and> hasProp ''pairs'' data
          \<and> isArray (getProp data ''pairs'')
       then
         bindE (metaPatchOf (nullish (getProp data ''bot'') (JObj []))) (\<lambda>mp.
         bindE (extractAll (arrayItems (getProp data ''pairs''))) (\<lambda>prs.
           if length prs = 0 then Inl (Error ''No valid Q/A items found in ExportPayload.pairs'')
           else Inr (Some \<lparr>metaPatch = Some mp, pairs = prs\<rparr>)))
       else if isArray data then
         bindE (extractAll (arrayItems data)) (\<lambda>prs.
           if length prs = 0 then Inl (Error ''No valid Q/A rows in array'')
           else Inr (Some \<lparr>metaPatch = None, pairs = prs\<rparr>))
       else if truthy data \<and> typeofObject data then
         (case find (\<lambda>k. isArray (getProp data k)) wrapKeys of
            Some wrapKey \<Rightarrow>
              bindE (extractAll (arrayItems (getProp data wrapKey))) (\<lambda>prs.
                if length prs = 0
                then Inl (Error (''No valid Q/A under '' @ [CHR 0x27] @ wrapKey @ [CHR 0x27]))
                else Inr (Some \<lparr>metaPatch = None, pairs = prs\<rparr>))
          | None \<Rightarrow> Inr None)
       else Inr None)"

text \<open>\<open>s.split(/\r?\n/)\<close>\<close>

fun splitLines :: "string \<Rightarrow> string list" where
  "splitLines [] = [[]]"
| "splitLines [c] = (if c = CHR 0x0A then [[], []] else [[c]])"
| "splitLines (c # d # cs) =
     (if c = CHR 0x0D \<and> d = CHR 0x0A then [] # splitLines cs
      else if c = CHR 0x0A then [] # splitLines (d # cs)
      else (case splitLines (d # cs) of l # ls \<Rightarrow> (c # l) # ls | [] \<Rightarrow> [[c]]))"

text \<open>The \<open>for\<close> loop over the lines; the second argument is \<open>fromJsonl\<close>. The inner
  \<open>try\<close> ignores a line that throws.\<close>

fun jsonlLoop :: "string list \<Rightarrow> QA list \<Rightarrow> QA list" where
  "jsonlLoop [] fromJsonl = fromJsonl"
| "jsonlLoop (line # rest) fromJsonl =
     jsonlLoop rest
       (case bindE (JSON_parse line)
               (\<lambda>obj. if isArray obj then extractQAFromArray obj else extractQAFromObject obj) of
          Inr (Some qa) \<Rightarrow> fromJsonl @ [qa]
        | _ \<Rightarrow> fromJsonl)"

definition parseAnyQAPairs :: "string \<Rightarrow> exn + Imported" where
  "parseAnyQAPairs jsonText =
     (case tryBlock jsonText of
        Inr (Some r) \<Rightarrow> Inr r
      | _ \<Rightarrow>
          let lines = filter (\<lambda>l. l \<noteq> []) (map trim (splitLines jsonText));
              fromJsonl = (if length lines > 1 then jsonlLoop lines [] else [])
          in if length lines > 1 \<and> length fromJsonl > 0
             then Inr \<lparr>metaPatch = None, pairs = fromJsonl\<rparr>
             else Inl (Error ''Unsupported JSON format: could not find Q/A pairs''))"

subsection \<open>JSON.stringify of the payload\<close>

definition hex4 :: "nat \<Rightarrow> string" where
  "hex4 n = map (\<lambda>d. ''0123456789abcdef'' ! d) [n div 4096 mod 16, n div 256 mod 16, n div 16 mod 16, n mod 16]"

definition quoteChar :: "char \<Rightarrow> string" where
  "quoteChar c =
     (if c = CHR 0x08 then [CHR 0x5C, CHR ''b'']
      else if c = CHR 0x09 then [CHR 0x5C, CHR ''t'']
      else if c = CHR 0x0A then [CHR 0x5C, CHR ''n'']
      else if c = CHR 0x0C then [CHR 0x5C, CHR ''f'']
      else if c = CHR 0x0D then [CHR 0x5C, CHR ''r'']
      else if c = CHR 0x22 then [CHR 0x5C, CHR 0x22]
      else if c = CHR 0x5C then [CHR 0x5C, CHR 0x5C]
      else if (of_char c :: nat) < 32 then [CHR 0x5C, CHR ''u''] @ hex4 (of_char c)
      else [c])"

definition quoteJSONString :: "string \<Rightarrow> string" where
  "quoteJSONString s = [CHR 0x22] @ concat (map quoteChar s) @ [CHR 0x22]"

text \<open>
  \<open>JSON.stringify(v)\<close> without indentation. A property whose value is \<open>undefined\<close> is
  left out; \<open>undefined\<close> in an array is written \<open>null\<close>.
\<close>

fun JSON_stringify :: "jsvalue \<Rightarrow> string" where
  "JSON_stringify JUndefined = ''null''"
| "JSON_stringify JNull = ''null''"
| "JSON_stringify (JBool b) = (if b then ''true'' else ''false'')"
| "JSON_stringify (JNum r) = Number_toString r"
| "JSON_stringify (JStr s) = quoteJSONString s"
| "JSON_stringify (JArr xs) = ''['' @ join '','' (map JSON_stringify xs) @ '']''"
| "JSON_stringify (JObj kvs) =
     ''{'' @ join '',''
               (map (\<lambda>(k, v). quoteJSONString k @ '':'' @ JSON_stringify v)
                    (filter (\<lambda>(k, v). v \<noteq> JUndefined) kvs))
           @ ''}''"

text \<open>The payload as the runtime value \<open>JSON.stringify\<close> is given. A number that is not
  finite is written \<open>null\<close>, so it is \<open>JNull\<close> here.\<close>

definition numberValue :: "number \<Rightarrow> jsvalue" where
  "numberValue n = (case n of Finite r \<Rightarrow> JNum r | _ \<Rightarrow> JNull)"

definition optStr :: "string option \<Rightarrow> jsvalue" where
  "optStr s = (case s of None \<Rightarrow> JUndefined | Some x \<Rightarrow> JStr x)"

definition qaValue :: "QA \<Rightarrow> jsvalue" where
  "qaValue p =
     JObj [(''q'', JStr (q p)), (''a'', JStr (a p)),
           (''tags'', case tags p of None \<Rightarrow> JUndefined | Some ts \<Rightarrow> JArr (map JStr ts))]"

definition payloadValue :: "ExportPayload \<Rightarrow> jsvalue" where
  "payloadValue p =
     JObj [(''bot'',
            JObj [(''name'', JStr (name (bot' p))),
                  (''lab'', JStr (ExportBot.lab (bot' p))),
                  (''owner_email'', JStr (owner_email (bot' p))),
                  (''description'', optStr (ExportBot.description (bot' p))),
                  (''slug'', JStr (slug (bot' p))),
                  (''model'', JStr (model (bot' p))),
                  (''embed_model'', JStr (embed_model (bot' p))),
                  (''temperature'', numberValue (ExportBot.temperature (bot' p))),
                  (''top_p'', numberValue (top_p (bot' p)))]),
           (''pairs'', JArr (map qaValue (ExportPayload.pairs p))),
           (''created_at'', JStr (created_at p)),
           (''version'', JStr (version p))]"

section \<open>Notions used in the statements\<close>

text \<open>The strings a sequence of atoms matches, from their first to their last character.\<close>

fun lang :: "atom list \<Rightarrow> string set" where
  "lang [] = {[]}"
| "lang (Once P # as) = {c # w | c w. P c \<and> w \<in> lang as}"
| "lang (Many P # as) = {x @ w | x w. x \<noteq> [] \<and> (\<forall>c\<in>set x. P c) \<and> w \<in> lang as}"

text \<open>The e-mail pattern as the specification words it: non-space text, \<open>@\<close>, non-space
  text, a dot, non-space text; here already in its weakest reading, found anywhere in the
  string.\<close>

definition nonSpace :: "char \<Rightarrow> bool" where
  "nonSpace c = (\<not> isWhiteSpace c)"

definition claimedEmailPattern :: "atom list" where
  "claimedEmailPattern =
     [Many nonSpace, Once (lit CHR ''@''), Many nonSpace, Once (lit CHR ''.''), Many nonSpace]"

text \<open>The shape of a slug: the class \<open>[a-z0-9-]\<close>, two hyphens side by side, and the
  shape the specification states for every output of \<open>slugify\<close>.\<close>

definition slugChar :: "char \<Rightarrow> bool" where
  "slugChar c = (in_range CHR ''a'' CHR ''z'' c \<or> in_range CHR ''0'' CHR ''9'' c \<or> c = CHR ''-'')"

fun adjacentHyphens :: "string \<Rightarrow> bool" where
  "adjacentHyphens (c # d # cs) = ((c = CHR ''-'' \<and> d = CHR ''-'') \<or> adjacentHyphens (d # cs))"
| "adjacentHyphens cs = False"

definition edgeHyphen :: "string \<Rightarrow> bool" where
  "edgeHyphen t = (t \<noteq> [] \<and> (hd t = CHR ''-'' \<or> last t = CHR ''-''))"

definition claimedSlug :: "string \<Rightarrow> bool" where
  "claimedSlug t = (list_all slugChar t \<and> \<not> edgeHyphen t \<and> \<not> adjacentHyphens t)"

text \<open>The letters, digits and hyphens of the lower-cased input, in order: what is left of
  an input when the other characters and the white space are taken out.\<close>

definition slugCore :: "string \<Rightarrow> string" where
  "slugCore s = filter slugChar (toLowerCase s)"



text \<open>The value that the text written by \<open>JSON.stringify\<close> denotes: properties left out
  are gone, \<open>undefined\<close> in an array has become \<open>null\<close>.\<close>

fun jsonImage :: "jsvalue \<Rightarrow> jsvalue" where
  "jsonImage JUndefined = JNull"
| "jsonImage (JArr xs) = JArr (map jsonImage xs)"
| "jsonImage (JObj kvs) =
     JObj (map (\<lambda>(k, v). (k, jsonImage v)) (filter (\<lambda>(k, v). v \<noteq> JUndefined) kvs))"
| "jsonImage v = v"

text \<open>The three shapes of a parsed text that the \<open>try\<close> block recognises.\<close>

definition fullExportShape :: "jsvalue \<Rightarrow> bool" where
  "fullExportShape data =
     (hasProp ''bot'' data \<and> hasProp ''pairs'' data \<and> isArray (getProp data ''pairs''))"

definition wrappedShape :: "jsvalue \<Rightarrow> bool" where
  "wrappedShape data = list_ex (\<lambda>k. isArray (getProp data k)) wrapKeys"

text \<open>The pairs of a list of lines, each line parsed and extracted on its own; a line
  that does not parse or gives no pair contributes nothing.\<close>

definition linePairs :: "string list \<Rightarrow> QA list" where
  "linePairs ls =
     concat (map (\<lambda>l. case JSON_parse l of
                         Inl e \<Rightarrow> []
                       | Inr obj \<Rightarrow> (case extractItem obj of Inr (Some qa) \<Rightarrow> [qa] | _ \<Rightarrow> []))
                 ls)"

text \<open>What a round trip through the payload gives back for the metadata and for the
  pairs, and the metadata patch the specification states: the trimmed metadata.\<close>

definition finiteOr :: "number \<Rightarrow> rat \<Rightarrow> number" where
  "finiteOr n d = (case n of Finite r \<Rightarrow> Finite r | _ \<Rightarrow> Finite d)"

definition roundTripMeta :: "BotMeta \<Rightarrow> BotMeta" where
  "roundTripMeta m =
     \<lparr>lab = trim (lab m), botName = trim (botName m), ownerEmail = trim (ownerEmail m),
      description = Some (case description m of None \<Rightarrow> [] | Some d \<Rightarrow> trim d),
      baseModel = trim (orElse (baseModel m) ''qwen2.5:7b-instruct''),
      embedModel = trim (orElse (embedModel m) ''nomic-embed-text''),
      temperature = finiteOr (temperature m) (2 / 10),
      topP = finiteOr (topP m) (95 / 100)\<rparr>"

definition roundTripPair :: "QAPair \<Rightarrow> QA" where
  "roundTripPair p =
     \<lparr>q = trim (q p), a = trim (a p),
      tags = (case tags p of None \<Rightarrow> None | Some ts \<Rightarrow> nonEmptyTags (map trim ts))\<rparr>"

definition wellFormedPair :: "QAPair \<Rightarrow> bool" where
  "wellFormedPair p = (trim (q p) \<noteq> [] \<and> trim (a p) \<noteq> [])"

definition trimmedMeta :: "BotMeta \<Rightarrow> BotMeta" where
  "trimmedMeta m =
     \<lparr>lab = trim (lab m), botName = trim (botName m), ownerEmail = trim (ownerEmail m),
      description = Some (case description m of None \<Rightarrow> [] | Some d \<Rightarrow> trim d),
      baseModel = trim (baseModel m), embedModel = trim (embedModel m),
      temperature = temperature m, topP = topP m\<rparr>"

text \<open>How a text field of the metadata patch follows the property \<open>k\<close> of \<open>bot\<close>, with
  default \<open>d\<close>: a string is trimmed, the empty string giving the default; a falsy value
  (absent, \<open>null\<close>, \<open>false\<close>, \<open>0\<close>, the empty string) gives the default; any other value
  gives its string form, trimmed.\<close>

definition textField :: "jsvalue \<Rightarrow> string \<Rightarrow> string \<Rightarrow> string \<Rightarrow> bool" where
  "textField b k d r =
     ((\<forall>s. getProp b k = JStr s \<longrightarrow> r = trim (orElse s d))
      \<and> (\<not> truthy (getProp b k) \<longrightarrow> r = d)
      \<and> (truthy (getProp b k) \<longrightarrow> coerceStr (getProp b k) = Inr r))"

text \<open>
  Reading back what \<open>JSON.stringify\<close> wrote. A text is \<open>delimited\<close> when it can follow a
  value inside a JSON text. A number reads back when its string form is a JSON number
  that denotes it; a
  value is \<open>printable\<close> when its numbers read back and no object has a key twice.
\<close>

definition delimited :: "string \<Rightarrow> bool" where
  "delimited rest =
     (case rest of [] \<Rightarrow> True | c # cs \<Rightarrow> c = CHR '','' \<or> c = CHR '']'' \<or> c = CHR ''}'')"

definition numberReadsBack :: "rat \<Rightarrow> bool" where
  "numberReadsBack r =
     (\<exists>c t. Number_toString r = c # t \<and> (c = CHR ''-'' \<or> isDigit c)
        \<and> (\<forall>rest. delimited rest \<longrightarrow> parseNumber (c # t @ rest) = Some (r, rest)))"

fun printable :: "jsvalue \<Rightarrow> bool" where
  "printable (JNum r) = numberReadsBack r"
| "printable (JArr xs) = list_all printable xs"
| "printable (JObj kvs) =
     (list_all (\<lambda>kv. printable (snd kv)) kvs
      \<and> distinct (map fst (filter (\<lambda>(k, v). v \<noteq> JUndefined) kvs)))"
| "printable v = True"

text \<open>
  A decimal fraction is an integer over a power of ten; the value of every double is one.
  For the proofs about digits: the character of a digit, and a text at which a run of
  digits ends.
\<close>

definition decimal :: "rat \<Rightarrow> bool" where
  "decimal r = (\<exists>m k. r = of_int m / 10 ^ k)"

definition decimalNumber :: "number \<Rightarrow> bool" where
  "decimalNumber n = (case n of Finite r \<Rightarrow> decimal r | _ \<Rightarrow> True)"

definition digitChar :: "nat \<Rightarrow> char" where
  "digitChar n = ''0123456789'' ! n"

definition stops :: "string \<Rightarrow> bool" where
  "stops s = (case s of [] \<Rightarrow> True | c # cs \<Rightarrow> \<not> isDigit c)"

section \<open>The parser always consumes\<close>

lemma stripPrefix_length: "stripPrefix p s = Some r \<Longrightarrow> length r + length p = length s"
  by (induction p s rule: stripPrefix.induct) (auto split: if_splits)

lemma fracPart_length: "fracPart s = Some (f, r) \<Longrightarrow> length r \<le> length s"
  by (auto simp: fracPart_def Let_def length_dropWhile_le le_SucI split: list.splits if_splits)

lemma expPart_length: "expPart s = Some (e, r) \<Longrightarrow> length r \<le> length s"
proof (cases s)
  case Nil
  then show "expPart s = Some (e, r) \<Longrightarrow> length r \<le> length s" by (simp add: expPart_def)
next
  case (Cons c cs)
  assume a: "expPart s = Some (e, r)"
  show "length r \<le> length s"
  proof (cases "c = CHR ''e'' \<or> c = CHR ''E''")
    case False
    with a Cons show ?thesis by (auto simp: expPart_def)
  next
    case True
    obtain sg r1 where sr: "(case cs of
                      [] \<Rightarrow> (1, cs)
                    | x # r' \<Rightarrow> if x = CHR ''+'' then (1, r') else if x = CHR ''-'' then (- 1, r') else (1, cs))
                  = (sg :: int, r1)"
      by fastforce
    then have l1: "length r1 \<le> length cs" by (auto split: list.splits if_splits)
    from a Cons True sr have "r = dropWhile isDigit r1"
      by (auto simp: expPart_def Let_def split: if_splits)
    then have "length r \<le> length r1" by (simp add: length_dropWhile_le)
    with l1 Cons show ?thesis by simp
  qed
qed

lemma parseNumber_length: "parseNumber s = Some (x, r) \<Longrightarrow> length r < length s"
proof -
  assume a: "parseNumber s = Some (x, r)"
  obtain neg s1 where ns: "(case s of [] \<Rightarrow> (False, s) | c # r \<Rightarrow> if c = CHR ''-'' then (True, r) else (False, s))
      = (neg, s1)" by fastforce
  then have l1: "length s1 \<le> length s" by (auto split: list.splits if_splits)
  from a ns obtain d r0 where s1: "s1 = d # r0" and dg: "isDigit d"
    by (cases s1) (auto simp: parseNumber_def Let_def split: if_splits)
  obtain ip s2 where is2: "(if d = CHR ''0'' then ([d], r0)
                               else (d # takeWhile isDigit r0, dropWhile isDigit r0)) = (ip, s2)"
    by fastforce
  then have l2: "length s2 \<le> length r0" by (auto simp: length_dropWhile_le split: if_splits)
  from a ns s1 dg is2 obtain fr s3 ex where f: "fracPart s2 = Some (fr, s3)"
    and e: "expPart s3 = Some (ex, r)"
    by (auto simp: parseNumber_def Let_def split: option.splits)
  from fracPart_length[OF f] expPart_length[OF e] l2 l1 s1 show ?thesis by simp
qed

lemma parsers_consume:
  "(\<forall>v r. parseValue s = Some (v, r) \<longrightarrow> length r < length s)"
  "(\<forall>v r. parseElements s acc = Some (v, r) \<longrightarrow> length r < length s)"
  "(\<forall>v r. parseMembers s mem = Some (v, r) \<longrightarrow> length r < length s)"
proof (induction s and s acc and s mem rule: parseValue_parseElements_parseMembers.induct)
  case (1 s)
  show ?case
  proof (intro allI impI)
    fix v r assume a: "parseValue s = Some (v, r)"
    then obtain c cs where sk: "skipWs s = c # cs"
      by (subst (asm) parseValue.simps) (auto split: list.splits)
    have lcs: "length cs < length s" using sk by (rule skipWs_Cons_length)
    note a' = a[unfolded parseValue.simps[of s] sk list.case]
    consider (obj) "c = CHR ''{''" | (arr) "c \<noteq> CHR ''{''" "c = CHR ''[''"
      | (str) "c \<noteq> CHR ''{''" "c \<noteq> CHR ''[''" "c = CHR 0x22"
      | (lit) "c \<noteq> CHR ''{''" "c \<noteq> CHR ''[''" "c \<noteq> CHR 0x22"
          "c = CHR ''t'' \<or> c = CHR ''f'' \<or> c = CHR ''n''"
      | (num) "c \<noteq> CHR ''{''" "c \<noteq> CHR ''[''" "c \<noteq> CHR 0x22"
          "c \<noteq> CHR ''t''" "c \<noteq> CHR ''f''" "c \<noteq> CHR ''n''"
      by blast
    then show "length r < length s"
    proof cases
      case obj
      from a' obj obtain d ds where sd: "skipWs cs = d # ds" by (auto split: list.splits)
      show ?thesis
      proof (cases "d = CHR ''}''")
        case True
        with a' obj sd have "r = ds" by simp
        then show ?thesis using skipWs_Cons_length[OF sd] lcs by simp
      next
        case False
        with a' obj sd have "parseMembers cs [] = Some (v, r)" by simp
        with "1.IH"(1)[OF sk obj sd False] have "length r < length cs" by blast
        then show ?thesis using lcs by simp
      qed
    next
      case arr
      from a' arr obtain d ds where sd: "skipWs cs = d # ds" by (auto split: list.splits)
      show ?thesis
      proof (cases "d = CHR '']''")
        case True
        with a' arr sd have "r = ds" by simp
        then show ?thesis using skipWs_Cons_length[OF sd] lcs by simp
      next
        case False
        with a' arr sd have "parseElements cs [] = Some (v, r)" by simp
        with "1.IH"(2)[OF sk arr sd False] have "length r < length cs" by blast
        then show ?thesis using lcs by simp
      qed
    next
      case str
      with a' obtain st where "parseChars cs = Some (st, r)" by auto
      then have "length r < length cs" by (rule parseChars_length)
      then show ?thesis using lcs by simp
    next
      case lit
      from a' lit have "stripPrefix ''true'' (c # cs) = Some r
          \<or> stripPrefix ''false'' (c # cs) = Some r \<or> stripPrefix ''null'' (c # cs) = Some r"
        by (auto simp del: stripPrefix.simps split: if_splits)
      then have "length r < length (c # cs)"
        using stripPrefix_length[of "''true''" "c # cs" r]
          stripPrefix_length[of "''false''" "c # cs" r]
          stripPrefix_length[of "''null''" "c # cs" r]
        by auto
      then show ?thesis using lcs by simp
    next
      case num
      with a' obtain x where "parseNumber (c # cs) = Some (x, r)" by auto
      then have "length r < length (c # cs)" by (rule parseNumber_length)
      then show ?thesis using lcs by simp
    qed
  qed
next
  case (2 s acc)
  show ?case
  proof (intro allI impI)
    fix v r assume a: "parseElements s acc = Some (v, r)"
    note a' = a[unfolded parseElements.simps[of s acc]]
    from a' obtain x r0 where pv: "parseValue s = Some (x, r0)" by (auto split: option.splits)
    with a' have g: "length r0 < length s" by (auto split: if_splits)
    from a' pv g obtain c r' where sk: "skipWs r0 = c # r'" by (auto split: list.splits)
    have l: "length r' < length r0" using sk by (rule skipWs_Cons_length)
    show "length r < length s"
    proof (cases "c = CHR '',''")
      case True
      with a' pv g sk have "parseElements r' (acc @ [x]) = Some (v, r)" by simp
      with "2.IH"(2)[OF pv refl g sk True] have "length r < length r'" by blast
      then show ?thesis using l g by simp
    next
      case False
      with a' pv g sk have "r = r'" by (auto split: if_splits)
      then show ?thesis using l g by simp
    qed
  qed
next
  case (3 s mem)
  show ?case
  proof (intro allI impI)
    fix v r assume a: "parseMembers s mem = Some (v, r)"
    note a' = a[unfolded parseMembers.simps[of s mem]]
    from a' obtain c cs where sk: "skipWs s = c # cs" by (auto split: list.splits)
    have lcs: "length cs < length s" using sk by (rule skipWs_Cons_length)
    from a' sk have c: "c = CHR 0x22" by (auto split: if_splits)
    from a' sk c obtain k r0 where pc: "parseChars cs = Some (k, r0)"
      by (auto split: option.splits)
    have l0: "length r0 < length cs" using pc by (rule parseChars_length)
    from a' sk c pc obtain d r1 where sd: "skipWs r0 = d # r1" by (auto split: list.splits)
    have l1: "length r1 < length r0" using sd by (rule skipWs_Cons_length)
    from a' sk c pc sd have d: "d = CHR '':''" by (auto split: if_splits)
    from a' sk c pc sd d obtain x r2 where pv: "parseValue r1 = Some (x, r2)"
      by (auto split: option.splits)
    from a' sk c pc sd d pv have g: "length r2 < length r1" by (auto split: if_splits)
    from a' sk c pc sd d pv g obtain e r3 where se: "skipWs r2 = e # r3"
      by (auto split: list.splits)
    have l3: "length r3 < length r2" using se by (rule skipWs_Cons_length)
    show "length r < length s"
    proof (cases "e = CHR '',''")
      case True
      with a' sk c pc sd d pv g se have "parseMembers r3 (setProp mem k x) = Some (v, r)" by simp
      with "3.IH"(2)[OF sk c pc refl sd d pv refl g se True] have "length r < length r3" by blast
      then show ?thesis using l3 g l1 l0 lcs by simp
    next
      case False
      with a' sk c pc sd d pv g se have "r = r3" by (auto split: if_splits)
      then show ?thesis using l3 g l1 l0 lcs by simp
    qed
  qed
qed

text \<open>So the two length tests in \<open>parseElements\<close> and \<open>parseMembers\<close>, which only
  serve the termination proof, never reject a text.\<close>

lemma parseValue_consumes: "parseValue s = Some (v, r) \<Longrightarrow> length r < length s"
  using parsers_consume(1) by blast


section \<open>The regular expression matcher\<close>

lemma lang_ManyI:
  "x \<noteq> [] \<Longrightarrow> \<forall>c\<in>set x. P c \<Longrightarrow> w \<in> lang as \<Longrightarrow> x @ w \<in> lang (Many P # as)"
  by simp blast

lemma matchHere_sound: "matchHere as s \<Longrightarrow> \<exists>m r. s = m @ r \<and> m \<in> lang as"
proof (induction as s rule: matchHere.induct)
  case (1 s)
  then show ?case by simp
next
  case (2 P as)
  then show ?case by simp
next
  case (3 P as c cs)
  then have pc: "P c" and "matchHere as cs" by (auto split: if_splits)
  with 3 obtain m r where "cs = m @ r" "m \<in> lang as" by blast
  with pc have "c # cs = (c # m) @ r \<and> c # m \<in> lang (Once P # as)" by simp
  then show ?case by blast
next
  case (4 P as)
  then show ?case by simp
next
  case (5 P as c cs)
  then have pc: "P c" by (auto split: if_splits)
  show ?case
  proof (cases "matchHere (Many P # as) cs")
    case True
    with 5 pc obtain m r where mr: "cs = m @ r" "m \<in> lang (Many P # as)" by blast
    then obtain x w where xw: "m = x @ w" "x \<noteq> []" "\<forall>c\<in>set x. P c" "w \<in> lang as" by auto
    have "(c # x) @ w \<in> lang (Many P # as)"
      by (rule lang_ManyI) (use xw pc in auto)
    then have "c # m \<in> lang (Many P # as)" using xw by simp
    then show ?thesis using mr by (intro exI[of _ "c # m"] exI[of _ r]) simp
  next
    case False
    with 5 pc have "matchHere as cs" by (auto split: if_splits)
    with 5 pc False obtain m r where mr: "cs = m @ r" "m \<in> lang as" by blast
    have "[c] @ m \<in> lang (Many P # as)"
      by (rule lang_ManyI) (use mr pc in auto)
    then have "c # m \<in> lang (Many P # as)" by simp
    then show ?thesis using mr by (intro exI[of _ "c # m"] exI[of _ r]) simp
  qed
qed

lemma matchHere_complete: "m \<in> lang as \<Longrightarrow> matchHere as (m @ r)"
proof (induction as "m @ r" arbitrary: m r rule: matchHere.induct)
  case (1 s)
  then show ?case by simp
next
  case (2 P as)
  then show ?case by simp
next
  case (3 P as c cs)
  from 3(3) obtain d w where dw: "m = d # w" "P d" "w \<in> lang as" by auto
  with 3(2) have "c = d" "cs = w @ r" by auto
  with 3(1)[of w r] dw have "matchHere as (w @ r)" by simp
  then show ?case using dw by simp
next
  case (4 P as)
  then show ?case by auto
next
  case (5 P as c cs)
  from 5(4) obtain x w where xw: "m = x @ w" "x \<noteq> []" "\<forall>c\<in>set x. P c" "w \<in> lang as" by auto
  then obtain d x' where x: "x = d # x'" by (cases x) auto
  with 5(3) xw have c: "c = d" "cs = x' @ w @ r" by auto
  have pc: "P c" using xw x c by simp
  have "matchHere (Many P # as) cs \<or> matchHere as cs"
  proof (cases "x' = []")
    case True
    show ?thesis
    proof (cases "matchHere (Many P # as) cs")
      case False
      have "cs = w @ r" using c True by simp
      then have "matchHere as cs" using 5(2)[OF pc False _ xw(4)] by simp
      then show ?thesis by simp
    qed simp
  next
    case False
    have "x' @ w \<in> lang (Many P # as)"
      by (rule lang_ManyI) (use False xw x in auto)
    moreover have "cs = (x' @ w) @ r" using c by simp
    ultimately have "matchHere (Many P # as) cs" using 5(1)[OF pc] by blast
    then show ?thesis by simp
  qed
  then have "matchHere (Many P # as) (c # cs)" using pc by auto
  then show ?case using 5(3) by simp
qed

lemma matchHere_iff: "matchHere as s \<longleftrightarrow> (\<exists>m r. s = m @ r \<and> m \<in> lang as)"
  using matchHere_sound matchHere_complete by blast

lemma regexTest_iff: "regexTest as s \<longleftrightarrow> (\<exists>p m r. s = p @ m @ r \<and> m \<in> lang as)"
proof (induction s)
  case Nil
  then show ?case by (auto simp: matchHere_iff)
next
  case (Cons c cs)
  show ?case
  proof
    assume "regexTest as (c # cs)"
    then consider "matchHere as (c # cs)" | "regexTest as cs" by (auto split: if_splits)
    then show "\<exists>p m r. c # cs = p @ m @ r \<and> m \<in> lang as"
    proof cases
      case 1
      then obtain m r where "c # cs = [] @ m @ r" "m \<in> lang as" by (auto simp: matchHere_iff)
      then show ?thesis by blast
    next
      case 2
      with Cons obtain p m r where "cs = p @ m @ r" "m \<in> lang as" by blast
      then have "c # cs = (c # p) @ m @ r" "m \<in> lang as" by auto
      then show ?thesis by blast
    qed
  next
    assume "\<exists>p m r. c # cs = p @ m @ r \<and> m \<in> lang as"
    then obtain p m r where pmr: "c # cs = p @ m @ r" "m \<in> lang as" by blast
    show "regexTest as (c # cs)"
    proof (cases p)
      case Nil
      with pmr have "matchHere as (c # cs)" by (auto simp: matchHere_iff)
      then show ?thesis by simp
    next
      case p: (Cons d p')
      with pmr have "cs = p' @ m @ r" by simp
      with pmr Cons.IH have "regexTest as cs" by blast
      then show ?thesis by simp
    qed
  qed
qed

lemma lang_emailRegex:
  "m \<in> lang emailRegex \<longleftrightarrow>
     (\<exists>x y z. m = x @ ''@'' @ y @ ''.'' @ z \<and> x \<noteq> [] \<and> y \<noteq> [] \<and> z \<noteq> []
        \<and> (\<forall>c\<in>set (x @ y @ z). \<not> isLineTerminator c))"
  unfolding emailRegex_def
  apply (simp add: dot_def lit_def)
  apply (rule iffI)
   apply (elim exE conjE)
   apply (simp, blast)
  apply (elim exE conjE)
  apply (simp, blast)
  done

lemma emailRegex_iff:
  "regexTest emailRegex s \<longleftrightarrow>
     (\<exists>p x y z r. s = p @ x @ ''@'' @ y @ ''.'' @ z @ r
        \<and> x \<noteq> [] \<and> y \<noteq> [] \<and> z \<noteq> []
        \<and> (\<forall>c\<in>set (x @ y @ z). \<not> isLineTerminator c))"
  unfolding regexTest_iff lang_emailRegex
  apply (rule iffI)
   apply (elim exE conjE)
   apply (simp, blast)
  apply (elim exE conjE)
  subgoal for p x y z r
    apply (rule exI[of _ p], rule exI[of _ "x @ ''@'' @ y @ ''.'' @ z"], rule exI[of _ r])
    apply (simp, blast)
    done
  done


section \<open>C3: validateMeta\<close>

text \<open>
  C3, as the code has it. \<open>validateMeta\<close> holds exactly when \<open>lab\<close> and \<open>botName\<close> are
  not empty after trimming and \<open>ownerEmail\<close> contains, somewhere, one or more characters,
  then \<open>@\<close>, then one or more characters, then a dot, then one or more characters, where
  the characters of the three runs may be any but line terminators: spaces count. The
  address is tested as it is, not trimmed, and the match need not span the whole string.
\<close>

theorem validateMeta_iff:
  "validateMeta meta \<longleftrightarrow>
     (trim (lab meta) \<noteq> [] \<and> trim (botName meta) \<noteq> []
      \<and> (\<exists>p x y z r. ownerEmail meta = p @ x @ ''@'' @ y @ ''.'' @ z @ r
            \<and> x \<noteq> [] \<and> y \<noteq> [] \<and> z \<noteq> []
            \<and> (\<forall>c\<in>set (x @ y @ z). \<not> isLineTerminator c)))"
  by (simp add: validateMeta_def emailRegex_iff)

text \<open>The metadata of the module's self-test passes.\<close>

theorem validateMeta_iff_witness:
  "validateMeta \<lparr>lab = ''IALS'', botName = ''Privacy-LLM'', ownerEmail = ''prof@umass.edu'',
       description = Some [], baseModel = ''qwen2.5:7b-instruct'', embedModel = ''nomic-embed-text'',
       temperature = Finite (2 / 10), topP = Finite (95 / 100)\<rparr>"
proof -
  have "''prof@umass.edu'' = [] @ ''prof'' @ ''@'' @ ''umass'' @ ''.'' @ ''edu'' @ []
        \<and> ''prof'' \<noteq> [] \<and> ''umass'' \<noteq> [] \<and> ''edu'' \<noteq> []
        \<and> (\<forall>c\<in>set (''prof'' @ ''umass'' @ ''edu''). \<not> isLineTerminator c)"
    by (simp add: isLineTerminator_def)
  then have "\<exists>p x y z r. ''prof@umass.edu'' = p @ x @ ''@'' @ y @ ''.'' @ z @ r
        \<and> x \<noteq> [] \<and> y \<noteq> [] \<and> z \<noteq> []
        \<and> (\<forall>c\<in>set (x @ y @ z). \<not> isLineTerminator c)"
    by blast
  moreover have "trim ''IALS'' \<noteq> []" "trim ''Privacy-LLM'' \<noteq> []"
    by (simp_all add: trim_def isWhiteSpace_def)
  ultimately show ?thesis
    by (simp add: validateMeta_iff)
qed

text \<open>
  C3 as the specification words it fails: the owner address \<open>" @ . "\<close> has only spaces
  around \<open>@\<close> and the dot, so it has no non-space text there, and yet the metadata is
  valid for the code.
\<close>

theorem validateMeta_nonspace_counterexample:
  "\<not> (validateMeta \<lparr>lab = ''x'', botName = ''y'', ownerEmail = '' @ . '',
           description = None, baseModel = ''m'', embedModel = ''e'',
           temperature = Finite (2 / 10), topP = Finite (95 / 100)\<rparr>
       \<longleftrightarrow>
        (trim ''x'' \<noteq> [] \<and> trim ''y'' \<noteq> [] \<and> regexTest claimedEmailPattern '' @ . ''))"
  by (simp add: validateMeta_def emailRegex_def claimedEmailPattern_def trim_def
      isWhiteSpace_def isLineTerminator_def dot_def lit_def nonSpace_def)


section \<open>slugify\<close>

lemma set_replaceRuns: "set (replaceRuns P r s) \<subseteq> set r \<union> {c \<in> set s. \<not> P c}"
proof (induction P r s rule: replaceRuns.induct)
  case (1 P r)
  then show ?case by simp
next
  case (2 P r c cs)
  show ?case
  proof (cases "P c")
    case True
    with 2 have "set (replaceRuns P r (dropWhile P cs)) \<subseteq> set r \<union> {c \<in> set (dropWhile P cs). \<not> P c}"
      by simp
    moreover have "set (dropWhile P cs) \<subseteq> set cs" by (auto dest: set_dropWhileD)
    ultimately show ?thesis using True by auto
  next
    case False
    with 2 show ?thesis by auto
  qed
qed

lemma set_trim: "set (trim s) \<subseteq> set s"
  unfolding trim_def by (auto dest!: set_dropWhileD)

lemma isWhiteSpace_not_slugChar: "isWhiteSpace c \<Longrightarrow> \<not> slugChar c"
  by (auto simp: isWhiteSpace_def slugChar_def in_range_def)

lemma slugify_chars: "c \<in> set (slugify s) \<Longrightarrow> slugChar c"
proof -
  assume a: "c \<in> set (slugify s)"
  let ?t1 = "trim (filter slugKeep (toLowerCase s))"
  let ?t2 = "replaceRuns isWhiteSpace ''-'' ?t1"
  have k1: "\<forall>c\<in>set ?t1. slugKeep c" using set_trim[of "filter slugKeep (toLowerCase s)"] by auto
  have k2: "\<forall>c\<in>set ?t2. slugChar c"
  proof
    fix d assume "d \<in> set ?t2"
    then have "d \<in> set ''-'' \<union> {c \<in> set ?t1. \<not> isWhiteSpace c}"
      using set_replaceRuns[of isWhiteSpace "''-''" ?t1] by blast
    then show "slugChar d" using k1 by (auto simp: slugChar_def slugKeep_def)
  qed
  from a have "c \<in> set ''-'' \<union> {c \<in> set ?t2. \<not> lit CHR ''-'' c}"
    using set_replaceRuns[of "lit CHR ''-''" "''-''" ?t2] unfolding slugify_def by blast
  then show ?thesis using k2 by (auto simp: slugChar_def)
qed

lemma replaceRuns_dropWhile_head:
  "replaceRuns P r (dropWhile P cs) = h # v \<Longrightarrow> \<not> P h"
proof (cases "dropWhile P cs")
  case Nil
  then show "replaceRuns P r (dropWhile P cs) = h # v \<Longrightarrow> \<not> P h" by simp
next
  case (Cons d ds)
  then have "\<not> P d" by (metis hd_dropWhile list.distinct(1) list.sel(1))
  then show "replaceRuns P r (dropWhile P cs) = h # v \<Longrightarrow> \<not> P h" using Cons by simp
qed

lemma no_adjacent_after_collapse:
  "\<not> adjacentHyphens (replaceRuns (lit CHR ''-'') ''-'' s)"
proof (induction "lit CHR ''-''" "''-''" s rule: replaceRuns.induct)
  case 1
  then show ?case by simp
next
  case (2 c cs)
  show ?case
  proof (cases "lit CHR ''-'' c")
    case True
    let ?rest = "replaceRuns (lit CHR ''-'') ''-'' (dropWhile (lit CHR ''-'') cs)"
    have ih: "\<not> adjacentHyphens ?rest" using 2 True by simp
    show ?thesis
    proof (cases ?rest)
      case Nil
      then show ?thesis using True by simp
    next
      case (Cons h v)
      then have "\<not> lit CHR ''-'' h" by (rule replaceRuns_dropWhile_head)
      then show ?thesis using True ih Cons by (simp add: lit_def)
    qed
  next
    case False
    let ?rest = "replaceRuns (lit CHR ''-'') ''-'' cs"
    have ih: "\<not> adjacentHyphens ?rest" using 2 False by simp
    show ?thesis
    proof (cases ?rest)
      case Nil
      then show ?thesis using False by simp
    next
      case (Cons h v)
      then show ?thesis using False ih by (simp add: lit_def)
    qed
  qed
qed

lemma lower_char_hyphen: "lower_char c = CHR ''-'' \<Longrightarrow> c = CHR ''-''"
proof (rule ccontr)
  assume l: "lower_char c = CHR ''-''" and n: "c \<noteq> CHR ''-''"
  let ?n = "of_char c :: nat"
  from l n have r: "(65 \<le> ?n \<and> ?n \<le> 90) \<or> (192 \<le> ?n \<and> ?n \<le> 222 \<and> ?n \<noteq> 215)"
    and e: "char_of (?n + 32) = CHR ''-''"
    by (auto simp: lower_char_def Let_def split: if_splits)
  from e have "(of_char (char_of (?n + 32)) :: nat) = of_char CHR ''-''" by simp
  then have "(?n + 32) mod 256 = 45" by (simp add: of_char_of)
  with r show False by auto
qed

lemma hd_replaceRuns:
  "s \<noteq> [] \<Longrightarrow> \<not> P (hd s) \<Longrightarrow> replaceRuns P r s \<noteq> [] \<and> hd (replaceRuns P r s) = hd s"
  by (cases s) auto

lemma last_replaceRuns:
  "s \<noteq> [] \<Longrightarrow> \<not> P (last s) \<Longrightarrow> replaceRuns P r s \<noteq> [] \<and> last (replaceRuns P r s) = last s"
proof (induction P r s rule: replaceRuns.induct)
  case (1 P r)
  then show ?case by simp
next
  case (2 P r c cs)
  show ?case
  proof (cases "P c")
    case True
    with 2(4) have cs: "cs \<noteq> []" by auto
    with 2(4) have lc: "\<not> P (last cs)" by simp
    then have "\<exists>x\<in>set cs. \<not> P x" using cs last_in_set by blast
    then have d: "dropWhile P cs \<noteq> []" by (simp add: dropWhile_eq_Nil_conv)
    then have ld: "last (dropWhile P cs) = last cs"
      by (metis append_Nil2 last_appendR takeWhile_dropWhile_id)
    have "replaceRuns P r (dropWhile P cs) \<noteq> [] \<and> last (replaceRuns P r (dropWhile P cs)) = last (dropWhile P cs)"
      using 2(1)[OF True d] lc ld by simp
    then show ?thesis using True ld cs by simp
  next
    case False
    show ?thesis
    proof (cases "cs = []")
      case True
      then show ?thesis using False by simp
    next
      case nonempty: False
      with 2(4) have "\<not> P (last cs)" by simp
      with 2(2)[OF False nonempty] have "replaceRuns P r cs \<noteq> [] \<and> last (replaceRuns P r cs) = last cs" by simp
      then show ?thesis using False nonempty by simp
    qed
  qed
qed

lemma trim_ends:
  "trim s \<noteq> [] \<Longrightarrow> \<not> isWhiteSpace (hd (trim s)) \<and> \<not> isWhiteSpace (last (trim s))"
proof -
  assume ne: "trim s \<noteq> []"
  let ?u = "dropWhile isWhiteSpace s"
  let ?v = "dropWhile isWhiteSpace (rev ?u)"
  have t: "trim s = rev ?v" by (simp add: trim_def)
  with ne have v: "?v \<noteq> []" by simp
  then have u: "?u \<noteq> []" by (cases "?u") auto
  have hv: "\<not> isWhiteSpace (hd ?v)" using v by (rule hd_dropWhile)
  have hu: "\<not> isWhiteSpace (hd ?u)" using u by (rule hd_dropWhile)
  have "last ?v = last (rev ?u)" using v
    by (metis append_Nil2 last_appendR takeWhile_dropWhile_id)
  then have "last ?v = hd ?u" using u by (simp add: last_rev)
  moreover have "hd (trim s) = last ?v" using t v by (simp add: hd_rev)
  moreover have "last (trim s) = hd ?v" using t v by (simp add: last_rev)
  ultimately show ?thesis using hv hu by simp
qed


lemma hd_dropWhile_filter: "hd (dropWhile P xs) = hd (filter (\<lambda>x. \<not> P x) xs)"
  by (induction xs) auto

lemma filter_dropWhile_not: "filter (\<lambda>x. \<not> P x) (dropWhile P xs) = filter (\<lambda>x. \<not> P x) xs"
  by (induction xs) auto

lemma dropWhile_Nil_filter: "(dropWhile P xs = []) = (filter (\<lambda>x. \<not> P x) xs = [])"
  by (induction xs) auto

lemma last_dropWhile: "dropWhile P xs \<noteq> [] \<Longrightarrow> last (dropWhile P xs) = last xs"
  by (induction xs) (auto split: if_splits)

lemma trim_filter_ends:
  "(trim s = []) = (filter (\<lambda>c. \<not> isWhiteSpace c) s = [])"
  "filter (\<lambda>c. \<not> isWhiteSpace c) s \<noteq> []
     \<Longrightarrow> hd (trim s) = hd (filter (\<lambda>c. \<not> isWhiteSpace c) s)
         \<and> last (trim s) = last (filter (\<lambda>c. \<not> isWhiteSpace c) s)"
proof -
  let ?F = "filter (\<lambda>c. \<not> isWhiteSpace c)"
  let ?u = "dropWhile isWhiteSpace s"
  let ?v = "dropWhile isWhiteSpace (rev ?u)"
  have t: "trim s = rev ?v" by (simp add: trim_def)
  have "(?v = []) = (?F (rev ?u) = [])" by (rule dropWhile_Nil_filter)
  also have "?F (rev ?u) = rev (?F ?u)" by (simp add: rev_filter)
  also have "?F ?u = ?F s" by (rule filter_dropWhile_not)
  finally have ve: "(?v = []) = (?F s = [])" by simp
  show "(trim s = []) = (?F s = [])" using t ve by simp
  assume ne: "?F s \<noteq> []"
  then have v: "?v \<noteq> []" using ve by simp
  then have u: "?u \<noteq> []" by (cases ?u) auto
  have fu: "?F ?u = ?F s" by (rule filter_dropWhile_not)
  have "hd ?v = hd (?F (rev ?u))" by (rule hd_dropWhile_filter)
  also have "\<dots> = hd (rev (?F ?u))" by (simp add: rev_filter)
  also have "\<dots> = last (?F s)" using ne fu by (simp add: hd_rev)
  finally have hv: "hd ?v = last (?F s)" .
  have "last ?v = last (rev ?u)" using v by (rule last_dropWhile)
  also have "\<dots> = hd ?u" using u by (simp add: last_rev)
  also have "\<dots> = hd (?F s)" by (rule hd_dropWhile_filter)
  finally have lv: "last ?v = hd (?F s)" .
  show "hd (trim s) = hd (?F s) \<and> last (trim s) = last (?F s)"
    using t v hv lv by (simp add: hd_rev last_rev)
qed

lemma replaceRuns_Nil_iff: "r \<noteq> [] \<Longrightarrow> (replaceRuns P r s = []) = (s = [])"
  by (cases s) auto

lemma hd_replaceRuns_lit: "hd (replaceRuns (lit x) [x] s) = hd s"
  by (cases s) (auto simp: lit_def)

lemma last_replaceRuns_lit: "last (replaceRuns (lit x) [x] s) = last s"
proof (induction "lit x" "[x]" s rule: replaceRuns.induct)
  case 1
  show ?case by simp
next
  case (2 c cs)
  show ?case
  proof (cases "lit x c")
    case True
    let ?d = "dropWhile (lit x) cs"
    have ih: "last (replaceRuns (lit x) [x] ?d) = last ?d" using 2(1)[OF True] .
    show ?thesis
    proof (cases "?d = []")
      case dnil: True
      then have all: "\<forall>y\<in>set cs. lit x y" by (simp add: dropWhile_eq_Nil_conv)
      have "last (c # cs) = x"
      proof (cases "cs = []")
        case True
        then show ?thesis using \<open>lit x c\<close> by (simp add: lit_def)
      next
        case False
        then have "last cs \<in> set cs" by simp
        with all have "last cs = x" by (auto simp: lit_def)
        with False show ?thesis by simp
      qed
      moreover have "replaceRuns (lit x) [x] (c # cs) = [x] @ replaceRuns (lit x) [x] ?d"
        using True by simp
      moreover have "replaceRuns (lit x) [x] ?d = []" unfolding dnil by simp
      ultimately show ?thesis by simp
    next
      case dne: False
      then have rne: "replaceRuns (lit x) [x] ?d \<noteq> []" by (simp add: replaceRuns_Nil_iff)
      have csne: "cs \<noteq> []" using dne by auto
      have "last ?d = last cs" using dne by (rule last_dropWhile)
      then show ?thesis using True ih rne csne by simp
    qed
  next
    case False
    have ih: "last (replaceRuns (lit x) [x] cs) = last cs" using 2(2)[OF False] .
    show ?thesis
    proof (cases "cs = []")
      case True
      then show ?thesis using False by simp
    next
      case ne: False
      then have "replaceRuns (lit x) [x] cs \<noteq> []" by (simp add: replaceRuns_Nil_iff)
      then show ?thesis using False ih ne by simp
    qed
  qed
qed

lemma slugKeep_core: "(slugKeep c \<and> \<not> isWhiteSpace c) = slugChar c"
  using isWhiteSpace_not_slugChar[of c] by (auto simp: slugKeep_def slugChar_def)

lemma slugCore_filter:
  "filter (\<lambda>c. \<not> isWhiteSpace c) (filter slugKeep (toLowerCase s)) = slugCore s"
  by (simp add: slugCore_def slugKeep_core)

lemma slugify_ends:
  "(slugify s = []) = (slugCore s = [])"
  "slugCore s \<noteq> [] \<Longrightarrow> hd (slugify s) = hd (slugCore s) \<and> last (slugify s) = last (slugCore s)"
proof -
  let ?t0 = "filter slugKeep (toLowerCase s)"
  let ?t1 = "trim ?t0"
  let ?t2 = "replaceRuns isWhiteSpace ''-'' ?t1"
  have s3: "slugify s = replaceRuns (lit CHR ''-'') [CHR ''-''] ?t2" by (simp add: slugify_def)
  have e1: "(?t1 = []) = (slugCore s = [])"
    using trim_filter_ends(1)[of ?t0] by (simp only: slugCore_filter)
  have e2: "(?t2 = []) = (?t1 = [])" by (simp add: replaceRuns_Nil_iff)
  have e3: "(slugify s = []) = (?t2 = [])" unfolding s3 by (simp add: replaceRuns_Nil_iff)
  show "(slugify s = []) = (slugCore s = [])" using e1 e2 e3 by simp
  assume ne: "slugCore s \<noteq> []"
  then have t1ne: "?t1 \<noteq> []" using e1 by simp
  have "filter (\<lambda>c. \<not> isWhiteSpace c) ?t0 \<noteq> []" using ne unfolding slugCore_filter .
  then have "hd ?t1 = hd (filter (\<lambda>c. \<not> isWhiteSpace c) ?t0)
      \<and> last ?t1 = last (filter (\<lambda>c. \<not> isWhiteSpace c) ?t0)"
    by (rule trim_filter_ends(2))
  then have ends1: "hd ?t1 = hd (slugCore s) \<and> last ?t1 = last (slugCore s)"
    by (simp only: slugCore_filter)
  have nw: "\<not> isWhiteSpace (hd ?t1)" "\<not> isWhiteSpace (last ?t1)"
    using trim_ends[OF t1ne] by simp_all
  have ends2: "hd ?t2 = hd ?t1" "last ?t2 = last ?t1"
    using hd_replaceRuns[of ?t1 isWhiteSpace "''-''"] last_replaceRuns[of ?t1 isWhiteSpace "''-''"]
      t1ne nw
    by simp_all
  have "hd (slugify s) = hd ?t2" "last (slugify s) = last ?t2"
    unfolding s3 by (rule hd_replaceRuns_lit, rule last_replaceRuns_lit)
  then show "hd (slugify s) = hd (slugCore s) \<and> last (slugify s) = last (slugCore s)"
    using ends1 ends2 by simp
qed


section \<open>C4: the shape of a slug\<close>

lemma slugify_list_all: "list_all slugChar (slugify s)"
  by (simp add: list_all_iff slugify_chars)

lemma slugify_no_adjacent: "\<not> adjacentHyphens (slugify s)"
  by (simp add: slugify_def no_adjacent_after_collapse)

lemma slugify_leading:
  "(slugify s \<noteq> [] \<and> hd (slugify s) = CHR ''-'') = (slugCore s \<noteq> [] \<and> hd (slugCore s) = CHR ''-'')"
  using slugify_ends[of s] by auto

lemma slugify_trailing:
  "(slugify s \<noteq> [] \<and> last (slugify s) = CHR ''-'') = (slugCore s \<noteq> [] \<and> last (slugCore s) = CHR ''-'')"
  using slugify_ends[of s] by auto

lemma slugify_claimed: "claimedSlug (slugify s) = (\<not> edgeHyphen (slugCore s))"
  using slugify_list_all[of s] slugify_no_adjacent[of s] slugify_ends[of s]
  by (auto simp: claimedSlug_def edgeHyphen_def)

lemma slugify_examples:
  "slugify ''Hello World!'' = ''hello-world''" "slugify ''Privacy-LLM'' = ''privacy-llm''"
  by code_simp+

text \<open>
  C4, as the code has it. For every input string, \<open>slugify\<close> returns a string over
  \<open>[a-z0-9-]\<close> with no two adjacent hyphens. It is empty exactly when the input has no
  letter, digit or hyphen; it starts with a hyphen exactly when the first letter, digit
  or hyphen of the input is a hyphen, and ends with one exactly when the last is. So
  the shape the specification states holds for exactly the inputs whose first and last
  letter, digit or hyphen are not hyphens: a hyphen of the input is kept, and trimming
  removes white space only. \<open>slugify("Hello World!")\<close> is \<open>hello-world\<close>, and
  \<open>slugify("Privacy-LLM")\<close> is \<open>privacy-llm\<close>.
\<close>

theorem slugify_shape:
  "list_all slugChar (slugify s)
   \<and> \<not> adjacentHyphens (slugify s)
   \<and> (slugify s = []) = (slugCore s = [])
   \<and> (slugify s \<noteq> [] \<and> hd (slugify s) = CHR ''-'')
       = (slugCore s \<noteq> [] \<and> hd (slugCore s) = CHR ''-'')
   \<and> (slugify s \<noteq> [] \<and> last (slugify s) = CHR ''-'')
       = (slugCore s \<noteq> [] \<and> last (slugCore s) = CHR ''-'')
   \<and> claimedSlug (slugify s) = (\<not> edgeHyphen (slugCore s))
   \<and> slugify ''Hello World!'' = ''hello-world''
   \<and> slugify ''Privacy-LLM'' = ''privacy-llm''"
  using slugify_list_all[of s] slugify_no_adjacent[of s] slugify_ends(1)[of s]
    slugify_leading[of s] slugify_trailing[of s] slugify_claimed[of s] slugify_examples
  by (intro conjI)

text \<open>An input with hyphens inside and other characters at its edges: its letters,
  digits and hyphens start with \<open>l\<close> and end with \<open>2\<close>, so its slug has the stated shape.\<close>

theorem slugify_shape_witness:
  "slugCore '' (Lab--Bot 2)! '' = ''lab--bot2''
   \<and> claimedSlug (slugify '' (Lab--Bot 2)! '')"
proof -
  have c: "slugCore '' (Lab--Bot 2)! '' = ''lab--bot2''" by code_simp
  have "\<not> edgeHyphen ''lab--bot2''" by (simp add: edgeHyphen_def)
  with slugify_shape[of "'' (Lab--Bot 2)! ''"] c show ?thesis by simp
qed

text \<open>C4 as stated fails: the slug of \<open>-a\<close> is \<open>-a\<close>, which starts with a hyphen.\<close>

theorem slugify_leading_hyphen_counterexample:
  "slugify ''-a'' = ''-a'' \<and> \<not> claimedSlug (slugify ''-a'')"
  by code_simp


section \<open>C6, C9, C10: the gate, the editing handlers, the payload's fallbacks\<close>

lemma trim_Nil_iff: "trim s = [] \<longleftrightarrow> list_all isWhiteSpace s"
proof -
  have "trim s = [] \<longleftrightarrow> (\<forall>x\<in>set (dropWhile isWhiteSpace s). isWhiteSpace x)"
    by (simp only: trim_def rev_is_Nil_conv dropWhile_eq_Nil_conv set_rev)
  also have "\<dots> \<longleftrightarrow> dropWhile isWhiteSpace s = []"
  proof
    assume a: "\<forall>x\<in>set (dropWhile isWhiteSpace s). isWhiteSpace x"
    show "dropWhile isWhiteSpace s = []"
    proof (rule ccontr)
      assume n: "dropWhile isWhiteSpace s \<noteq> []"
      then have "\<not> isWhiteSpace (hd (dropWhile isWhiteSpace s))" by (rule hd_dropWhile)
      moreover have "hd (dropWhile isWhiteSpace s) \<in> set (dropWhile isWhiteSpace s)"
        using n by simp
      ultimately show False using a by blast
    qed
  qed (auto dest: set_dropWhileD)
  also have "\<dots> \<longleftrightarrow> list_all isWhiteSpace s"
    by (simp add: dropWhile_eq_Nil_conv list_all_iff)
  finally show ?thesis .
qed

lemma orElse_Nil [simp]: "orElse s [] = s"
  by (simp add: orElse_def)

text \<open>
  C6. The submission gate \<open>isValid\<close> is true exactly when \<open>validateMeta\<close> passes and
  some pair has a question and an answer that are not empty after trimming; and the
  payload holds every pair of the working set, trimmed and in order, the blank ones
  included: nothing is filtered out.
\<close>

theorem isValid_gate_and_payload_pairs:
  "(isValid meta prs \<longleftrightarrow>
      validateMeta meta \<and> (\<exists>p\<in>set prs. trim (q p) \<noteq> [] \<and> trim (a p) \<noteq> []))
   \<and> length (ExportPayload.pairs (exportPayload meta prs now)) = length prs
   \<and> map (\<lambda>e. (q e, a e)) (ExportPayload.pairs (exportPayload meta prs now))
       = map (\<lambda>p. (trim (q p), trim (a p))) prs"
  by (simp add: isValid_def exportPayload_def exportPair_def list_ex_iff comp_def)

text \<open>The pairs of the module's self-test: one complete pair, one blank pair. The gate is
  open and both pairs are in the payload.\<close>

theorem isValid_gate_and_payload_pairs_witness:
  "isValid
     \<lparr>lab = ''IALS'', botName = ''Privacy-LLM'', ownerEmail = ''prof@umass.edu'',
      description = Some [], baseModel = ''qwen2.5:7b-instruct'', embedModel = ''nomic-embed-text'',
      temperature = Finite (2 / 10), topP = Finite (95 / 100)\<rparr>
     [\<lparr>q = ''What is RAG?'', a = ''Retrieval-Augmented Generation.'', tags = Some [], id' = ''1''\<rparr>,
      \<lparr>q = '' '', a = '' '', tags = Some [], id' = ''2''\<rparr>]
   \<and> map (\<lambda>e. (q e, a e))
        (ExportPayload.pairs
          (exportPayload
            \<lparr>lab = ''IALS'', botName = ''Privacy-LLM'', ownerEmail = ''prof@umass.edu'',
             description = Some [], baseModel = ''qwen2.5:7b-instruct'', embedModel = ''nomic-embed-text'',
             temperature = Finite (2 / 10), topP = Finite (95 / 100)\<rparr>
            [\<lparr>q = ''What is RAG?'', a = ''Retrieval-Augmented Generation.'', tags = Some [], id' = ''1''\<rparr>,
             \<lparr>q = '' '', a = '' '', tags = Some [], id' = ''2''\<rparr>]
            ''2025-09-16T00:00:00.000Z''))
      = [(''What is RAG?'', ''Retrieval-Augmented Generation.''), ([], [])]"
proof -
  let ?m = "\<lparr>lab = ''IALS'', botName = ''Privacy-LLM'', ownerEmail = ''prof@umass.edu'',
      description = Some [], baseModel = ''qwen2.5:7b-instruct'', embedModel = ''nomic-embed-text'',
      temperature = Finite (2 / 10), topP = Finite (95 / 100)\<rparr>"
  let ?ps = "[\<lparr>q = ''What is RAG?'', a = ''Retrieval-Augmented Generation.'', tags = Some [], id' = ''1''\<rparr>,
      \<lparr>q = '' '', a = '' '', tags = Some [], id' = ''2''\<rparr>]"
  have v: "validateMeta ?m"
    by (simp add: validateMeta_def emailRegex_def trim_def isWhiteSpace_def isLineTerminator_def
        dot_def lit_def)
  have t: "trim ''What is RAG?'' = ''What is RAG?''"
    "trim ''Retrieval-Augmented Generation.'' = ''Retrieval-Augmented Generation.''"
    "trim '' '' = []"
    by (simp_all add: trim_def isWhiteSpace_def)
  show ?thesis
    using isValid_gate_and_payload_pairs[of ?m ?ps "''2025-09-16T00:00:00.000Z''"] v t
    by simp
qed

lemma findIndex_less: "findIndex P xs = Some i \<Longrightarrow> i < length xs"
  by (induction xs arbitrary: i) (auto split: if_splits)

lemma length_movePair: "length (movePair i dir prev) = length prev"
proof (cases "findIndex (\<lambda>p. id' p = i) prev")
  case None
  then show ?thesis by (simp add: movePair_def)
next
  case (Some idx)
  then have "idx < length prev" by (rule findIndex_less)
  then show ?thesis using Some by (auto simp: movePair_def Let_def)
qed

lemma length_filter_distinct:
  "distinct (map f xs) \<Longrightarrow>
     length (filter (\<lambda>p. f p \<noteq> i) xs) = length xs - (if i \<in> set (map f xs) then 1 else 0)"
proof (induction xs)
  case Nil
  then show ?case by simp
next
  case (Cons x xs)
  show ?case
  proof (cases "f x = i")
    case True
    with Cons.prems have "i \<notin> set (map f xs)" by auto
    then have "filter (\<lambda>p. f p \<noteq> i) xs = xs" by (auto simp: filter_id_conv)
    then show ?thesis using True by simp
  next
    case False
    have "i \<in> set (map f xs) \<Longrightarrow> length xs > 0" by (cases xs) auto
    with False Cons show ?thesis by auto
  qed
qed

text \<open>
  C9, as the code has it. On a working list that is not empty and whose identifiers are
  pairwise distinct, \<open>removePair\<close> leaves a list of one pair unchanged; on a longer
  list it keeps, in order, exactly the pairs with another identifier, which removes one
  pair when the identifier is in the list and none otherwise; and \<open>removePair\<close>,
  \<open>addPair\<close>, \<open>updatePair\<close> and \<open>movePair\<close> all return a list that is not empty.
\<close>

theorem editing_keeps_nonempty:
  assumes "prev \<noteq> []" and "distinct (map id' prev)"
  shows "(length prev = 1 \<longrightarrow> removePair i prev = prev)
       \<and> (length prev > 1 \<longrightarrow>
            removePair i prev = filter (\<lambda>p. id' p \<noteq> i) prev
            \<and> length (removePair i prev)
                = length prev - (if i \<in> set (map id' prev) then 1 else 0))
       \<and> removePair i prev \<noteq> []
       \<and> addPair fresh prev \<noteq> []
       \<and> updatePair i patch prev \<noteq> []
       \<and> movePair i dir prev \<noteq> []"
proof -
  have len: "length (filter (\<lambda>p. id' p \<noteq> i) prev)
               = length prev - (if i \<in> set (map id' prev) then 1 else 0)"
    using assms(2) by (rule length_filter_distinct)
  have r: "removePair i prev \<noteq> []"
  proof (cases "length prev \<le> 1")
    case True
    then show ?thesis using assms(1) by (simp add: removePair_def)
  next
    case False
    then have "length (filter (\<lambda>p. id' p \<noteq> i) prev) > 0" using len by auto
    then show ?thesis using False by (auto simp: removePair_def)
  qed
  have m: "movePair i dir prev \<noteq> []"
    using length_movePair[of i dir prev] assms(1) by (metis length_0_conv)
  have u: "updatePair i patch prev \<noteq> []" using assms(1) by (simp add: updatePair_def)
  have ad: "addPair fresh prev \<noteq> []" by (simp add: addPair_def)
  have one: "length prev = 1 \<longrightarrow> removePair i prev = prev" by (simp add: removePair_def)
  have more: "length prev > 1 \<longrightarrow>
            removePair i prev = filter (\<lambda>p. id' p \<noteq> i) prev
            \<and> length (removePair i prev)
                = length prev - (if i \<in> set (map id' prev) then 1 else 0)"
    using len by (simp add: removePair_def)
  from one more r ad u m show ?thesis by blast
qed

theorem editing_keeps_nonempty_witness:
  "removePair ''1''
     [\<lparr>q = ''Q1'', a = ''A1'', tags = None, id' = ''1''\<rparr>,
      \<lparr>q = ''Q2'', a = ''A2'', tags = None, id' = ''2''\<rparr>]
     = [\<lparr>q = ''Q2'', a = ''A2'', tags = None, id' = ''2''\<rparr>]
   \<and> removePair ''2'' [\<lparr>q = ''Q2'', a = ''A2'', tags = None, id' = ''2''\<rparr>]
     = [\<lparr>q = ''Q2'', a = ''A2'', tags = None, id' = ''2''\<rparr>]"
proof -
  let ?p1 = "\<lparr>q = ''Q1'', a = ''A1'', tags = None, id' = ''1''\<rparr>"
  let ?p2 = "\<lparr>q = ''Q2'', a = ''A2'', tags = None, id' = ''2''\<rparr>"
  have d2: "[?p1, ?p2] \<noteq> []" "distinct (map id' [?p1, ?p2])" by simp_all
  have d1: "[?p2] \<noteq> []" "distinct (map id' [?p2])" by simp_all
  have "removePair ''1'' [?p1, ?p2] = filter (\<lambda>p. id' p \<noteq> ''1'') [?p1, ?p2]"
    using editing_keeps_nonempty[OF d2, of "''1''"] by simp
  moreover have "removePair ''2'' [?p2] = [?p2]"
    using editing_keeps_nonempty[OF d1, of "''2''"] by simp
  ultimately show ?thesis by simp
qed

text \<open>
  C9 as stated, for every working list, fails: when two pairs carry the same identifier,
  removing it removes both and leaves the list empty.
\<close>

theorem removePair_duplicate_id_counterexample:
  "removePair ''x''
     [\<lparr>q = ''Q1'', a = ''A1'', tags = None, id' = ''x''\<rparr>,
      \<lparr>q = ''Q2'', a = ''A2'', tags = None, id' = ''x''\<rparr>] = []"
  by (simp add: removePair_def)

text \<open>
  C10. When \<open>botName\<close> is empty or white space only, the payload's \<open>bot.name\<close> is the
  literal \<open>Untitled Bot\<close>, and otherwise the trimmed name; \<open>bot.lab\<close> and
  \<open>bot.owner_email\<close> are the trimmed fields, so the empty string when those are blank;
  and a description that is absent or empty after trimming is left out.
\<close>

theorem payload_fallbacks:
  "(list_all isWhiteSpace (botName meta) \<longrightarrow>
       name (bot' (exportPayload meta prs now)) = ''Untitled Bot'')
   \<and> (\<not> list_all isWhiteSpace (botName meta) \<longrightarrow>
       name (bot' (exportPayload meta prs now)) = trim (botName meta))
   \<and> ExportBot.lab (bot' (exportPayload meta prs now)) = trim (lab meta)
   \<and> owner_email (bot' (exportPayload meta prs now)) = trim (ownerEmail meta)
   \<and> (list_all isWhiteSpace (lab meta) \<longrightarrow> ExportBot.lab (bot' (exportPayload meta prs now)) = [])
   \<and> (list_all isWhiteSpace (ownerEmail meta) \<longrightarrow>
       owner_email (bot' (exportPayload meta prs now)) = [])
   \<and> ((case description meta of None \<Rightarrow> True | Some d \<Rightarrow> list_all isWhiteSpace d) \<longrightarrow>
       ExportBot.description (bot' (exportPayload meta prs now)) = None)"
  by (auto simp: exportPayload_def orElse_def trim_Nil_iff[symmetric] split: option.splits)

theorem payload_fallbacks_witness:
  "name (bot' (exportPayload
       \<lparr>lab = ''  '', botName = '' '', ownerEmail = [], description = Some '' '',
        baseModel = ''m'', embedModel = ''e'', temperature = Finite (2 / 10), topP = Finite (95 / 100)\<rparr>
       [] ''2025-09-16T00:00:00.000Z'')) = ''Untitled Bot''
   \<and> ExportBot.lab (bot' (exportPayload
       \<lparr>lab = ''  '', botName = '' '', ownerEmail = [], description = Some '' '',
        baseModel = ''m'', embedModel = ''e'', temperature = Finite (2 / 10), topP = Finite (95 / 100)\<rparr>
       [] ''2025-09-16T00:00:00.000Z'')) = []
   \<and> owner_email (bot' (exportPayload
       \<lparr>lab = ''  '', botName = '' '', ownerEmail = [], description = Some '' '',
        baseModel = ''m'', embedModel = ''e'', temperature = Finite (2 / 10), topP = Finite (95 / 100)\<rparr>
       [] ''2025-09-16T00:00:00.000Z'')) = []
   \<and> ExportBot.description (bot' (exportPayload
       \<lparr>lab = ''  '', botName = '' '', ownerEmail = [], description = Some '' '',
        baseModel = ''m'', embedModel = ''e'', temperature = Finite (2 / 10), topP = Finite (95 / 100)\<rparr>
       [] ''2025-09-16T00:00:00.000Z'')) = None"
proof -
  let ?m = "\<lparr>lab = ''  '', botName = '' '', ownerEmail = [], description = Some '' '',
        baseModel = ''m'', embedModel = ''e'', temperature = Finite (2 / 10), topP = Finite (95 / 100)\<rparr>"
  have b: "list_all isWhiteSpace (botName ?m)" "list_all isWhiteSpace (lab ?m)"
    "list_all isWhiteSpace (ownerEmail ?m)"
    "(case description ?m of None \<Rightarrow> True | Some d \<Rightarrow> list_all isWhiteSpace d)"
    by (simp_all add: isWhiteSpace_def)
  show ?thesis
    using payload_fallbacks[of ?m "[]" "''2025-09-16T00:00:00.000Z''"] b by blast
qed


section \<open>C7: the pair extractor on objects\<close>





lemma coerceStr_JStr [simp]: "coerceStr (JStr s) = Inr (trim s)"
  by (simp add: coerceStr_def bindE_def)

lemma trim_Nil [simp]: "trim [] = []"
  by (simp add: trim_def)










section \<open>C1, C5, C8: parseAnyQAPairs\<close>

lemma hasProp_JObj: "hasProp k data \<Longrightarrow> truthy data \<and> typeofObject data \<and> \<not> isArray data"
  by (cases data) (auto simp: hasProp_def truthy_def typeofObject_def isArray_def)

lemma tryBlock_parse_error: "JSON_parse jsonText = Inl e \<Longrightarrow> tryBlock jsonText = Inl e"
  by (simp add: tryBlock_def bindE_def)

lemma tryBlock_no_shape:
  assumes "JSON_parse jsonText = Inr data" "\<not> fullExportShape data" "\<not> isArray data"
    "\<not> wrappedShape data"
  shows "tryBlock jsonText = Inr None"
proof -
  have c3: "find (\<lambda>k. isArray (getProp data k)) wrapKeys = None"
    using assms(4) by (auto simp: wrappedShape_def list_ex_iff find_None_iff)
  have c1: "(truthy data \<and> typeofObject data \<and> hasProp ''bot'' data \<and> hasProp ''pairs'' data
          \<and> isArray (getProp data ''pairs'')) = False"
    using assms(2) by (auto simp: fullExportShape_def)
  have c2: "isArray data = False" using assms(3) by simp
  show ?thesis
    unfolding tryBlock_def by (simp only: assms(1) bindE_def sum.case c1 c2 c3 if_False option.case if_cancel)
qed

lemma jsonlLoop_linePairs: "jsonlLoop ls acc = acc @ linePairs ls"
proof (induction ls arbitrary: acc)
  case Nil
  then show ?case by (simp add: linePairs_def)
next
  case (Cons l ls)
  have step: "(case bindE (JSON_parse l)
               (\<lambda>obj. if isArray obj then extractQAFromArray obj else extractQAFromObject obj) of
          Inr (Some qa) \<Rightarrow> acc @ [qa]
        | _ \<Rightarrow> acc)
     = acc @ (case JSON_parse l of
                Inl e \<Rightarrow> []
              | Inr obj \<Rightarrow> (case extractItem obj of Inr (Some qa) \<Rightarrow> [qa] | _ \<Rightarrow> []))"
    by (auto simp: bindE_def extractItem_def split: sum.splits option.splits)
  have "jsonlLoop (l # ls) acc
      = (acc @ (case JSON_parse l of
                Inl e \<Rightarrow> []
              | Inr obj \<Rightarrow> (case extractItem obj of Inr (Some qa) \<Rightarrow> [qa] | _ \<Rightarrow> [])))
        @ linePairs ls"
    using Cons.IH step by simp
  then show ?case by (simp add: linePairs_def)
qed

lemma parseAnyQAPairs_fallthrough:
  assumes "tryBlock jsonText = Inl e \<or> tryBlock jsonText = Inr None"
  shows "parseAnyQAPairs jsonText =
     (let ls = filter (\<lambda>l. l \<noteq> []) (map trim (splitLines jsonText))
      in if length ls > 1 \<and> linePairs ls \<noteq> []
         then Inr \<lparr>metaPatch = None, pairs = linePairs ls\<rparr>
         else Inl (Error ''Unsupported JSON format: could not find Q/A pairs''))"
  using assms by (auto simp: parseAnyQAPairs_def Let_def jsonlLoop_linePairs)


text \<open>
  C8. When the whole text does not parse, or parses to a value of none of the three
  recognised shapes, the result is decided by the lines alone: the text is split at line
  breaks, the lines trimmed and the empty ones dropped; each line is parsed and
  extracted on its own, a line that fails contributing nothing, and the pairs keep the
  order of their lines; the call succeeds exactly when there is more than one line and
  at least one pair, and otherwise throws the unsupported-format error. Three lines of
  which the second is malformed give the pairs of the first and the third, in order.
\<close>

theorem jsonl_strategy:
  \<open>(JSON_parse jsonText = Inl e
      \<or> (JSON_parse jsonText = Inr data \<and> \<not> fullExportShape data \<and> \<not> isArray data
           \<and> \<not> wrappedShape data)
    \<longrightarrow>
      parseAnyQAPairs jsonText =
        (let ls = filter (\<lambda>l. l \<noteq> []) (map trim (splitLines jsonText))
         in if length ls > 1 \<and> linePairs ls \<noteq> []
            then Inr \<lparr>metaPatch = None, pairs = linePairs ls\<rparr>
            else Inl (Error ''Unsupported JSON format: could not find Q/A pairs'')))
   \<and> linePairs [] = []
   \<and> linePairs (l # ls) =
        (case JSON_parse l of
           Inl x \<Rightarrow> []
         | Inr obj \<Rightarrow> (case extractItem obj of Inr (Some qa) \<Rightarrow> [qa] | _ \<Rightarrow> []))
        @ linePairs ls
   \<and> parseAnyQAPairs
        (''{"q":"Q1","a":"A1"}'' @ [CHR 0x0A] @ ''{"q":"Q2","a"'' @ [CHR 0x0A]
           @ ''{"question":"Q3","answer":"A3"}'')
       = Inr \<lparr>metaPatch = None,
              pairs = [\<lparr>q = ''Q1'', a = ''A1'', tags = None\<rparr>,
                       \<lparr>q = ''Q3'', a = ''A3'', tags = None\<rparr>]\<rparr>\<close>
proof -
  have main: "JSON_parse jsonText = Inl e
      \<or> (JSON_parse jsonText = Inr data \<and> \<not> fullExportShape data \<and> \<not> isArray data
           \<and> \<not> wrappedShape data)
    \<longrightarrow>
      parseAnyQAPairs jsonText =
        (let ls = filter (\<lambda>l. l \<noteq> []) (map trim (splitLines jsonText))
         in if length ls > 1 \<and> linePairs ls \<noteq> []
            then Inr \<lparr>metaPatch = None, pairs = linePairs ls\<rparr>
            else Inl (Error ''Unsupported JSON format: could not find Q/A pairs''))"
  proof
    assume "JSON_parse jsonText = Inl e
      \<or> (JSON_parse jsonText = Inr data \<and> \<not> fullExportShape data \<and> \<not> isArray data
           \<and> \<not> wrappedShape data)"
    then have "tryBlock jsonText = Inl e \<or> tryBlock jsonText = Inr None"
      using tryBlock_parse_error[of jsonText e] tryBlock_no_shape[of jsonText data] by blast
    then show "parseAnyQAPairs jsonText =
        (let ls = filter (\<lambda>l. l \<noteq> []) (map trim (splitLines jsonText))
         in if length ls > 1 \<and> linePairs ls \<noteq> []
            then Inr \<lparr>metaPatch = None, pairs = linePairs ls\<rparr>
            else Inl (Error ''Unsupported JSON format: could not find Q/A pairs''))"
      by (rule parseAnyQAPairs_fallthrough)
  qed
  have l0: "linePairs [] = []" by (simp add: linePairs_def)
  have l1: "linePairs (l # ls) =
        (case JSON_parse l of
           Inl x \<Rightarrow> []
         | Inr obj \<Rightarrow> (case extractItem obj of Inr (Some qa) \<Rightarrow> [qa] | _ \<Rightarrow> []))
        @ linePairs ls"
    by (simp add: linePairs_def)
  have ex: \<open>parseAnyQAPairs
        (''{"q":"Q1","a":"A1"}'' @ [CHR 0x0A] @ ''{"q":"Q2","a"'' @ [CHR 0x0A]
           @ ''{"question":"Q3","answer":"A3"}'')
       = Inr \<lparr>metaPatch = None,
              pairs = [\<lparr>q = ''Q1'', a = ''A1'', tags = None\<rparr>,
                       \<lparr>q = ''Q3'', a = ''A3'', tags = None\<rparr>]\<rparr>\<close>
    by code_simp
  from main l0 l1 ex show ?thesis by (intro conjI)
qed

text \<open>A text of two lines, an array pair and an object pair; as a whole it is not JSON.\<close>

theorem jsonl_strategy_witness:
  \<open>JSON_parse (''["Q1","A1"]'' @ [CHR 0x0D, CHR 0x0A] @ ''{"q":"Q2","a":"A2"}'') = Inl SyntaxError
   \<and> parseAnyQAPairs (''["Q1","A1"]'' @ [CHR 0x0D, CHR 0x0A] @ ''{"q":"Q2","a":"A2"}'')
       = Inr \<lparr>metaPatch = None,
              pairs = [\<lparr>q = ''Q1'', a = ''A1'', tags = None\<rparr>,
                       \<lparr>q = ''Q2'', a = ''A2'', tags = None\<rparr>]\<rparr>\<close>
proof -
  let ?t = \<open>''["Q1","A1"]'' @ [CHR 0x0D, CHR 0x0A] @ ''{"q":"Q2","a":"A2"}''\<close>
  have p: "JSON_parse ?t = Inl SyntaxError" by code_simp
  have ls: \<open>filter (\<lambda>l. l \<noteq> []) (map trim (splitLines ?t))
              = [''["Q1","A1"]'', ''{"q":"Q2","a":"A2"}'']\<close>
    by code_simp
  have lp: \<open>linePairs [''["Q1","A1"]'', ''{"q":"Q2","a":"A2"}'']
              = [\<lparr>q = ''Q1'', a = ''A1'', tags = None\<rparr>, \<lparr>q = ''Q2'', a = ''A2'', tags = None\<rparr>]\<close>
    by code_simp
  have "parseAnyQAPairs ?t =
        (let ls = filter (\<lambda>l. l \<noteq> []) (map trim (splitLines ?t))
         in if length ls > 1 \<and> linePairs ls \<noteq> []
            then Inr \<lparr>metaPatch = None, pairs = linePairs ls\<rparr>
            else Inl (Error ''Unsupported JSON format: could not find Q/A pairs''))"
    using jsonl_strategy[of ?t SyntaxError] p by blast
  then have "parseAnyQAPairs ?t = Inr \<lparr>metaPatch = None,
              pairs = [\<lparr>q = ''Q1'', a = ''A1'', tags = None\<rparr>,
                       \<lparr>q = ''Q2'', a = ''A2'', tags = None\<rparr>]\<rparr>"
    by (simp only: ls lp Let_def) simp
  with p show ?thesis by blast
qed

text \<open>
  C1, at a full-export text whose only element of \<open>pairs\<close> has no answer key. The
  \<open>try\<close> block throws the cause "No valid Q/A items found in ExportPayload.pairs", the
  \<open>catch\<close> around it drops it, and the call reports the unsupported-format error. When
  such a text has several lines the line strategy runs on it and can even succeed, as
  for the second text. No call reports the full-export cause.
\<close>

theorem full_export_cause_is_lost:
  \<open>tryBlock ''{"bot":{},"pairs":[{"q":"x"}]}''
     = Inl (Error ''No valid Q/A items found in ExportPayload.pairs'')
   \<and> parseAnyQAPairs ''{"bot":{},"pairs":[{"q":"x"}]}''
     = Inl (Error ''Unsupported JSON format: could not find Q/A pairs'')
   \<and> tryBlock (''{"bot":{},"pairs":[{"x":'' @ [CHR 0x0A] @ ''["Q","A"]'' @ [CHR 0x0A] @ ''}]}'')
     = Inl (Error ''No valid Q/A items found in ExportPayload.pairs'')
   \<and> parseAnyQAPairs (''{"bot":{},"pairs":[{"x":'' @ [CHR 0x0A] @ ''["Q","A"]'' @ [CHR 0x0A] @ ''}]}'')
     = Inr \<lparr>metaPatch = None, pairs = [\<lparr>q = ''Q'', a = ''A'', tags = None\<rparr>]\<rparr>
   \<and> parseAnyQAPairs jsonText \<noteq> Inl (Error ''No valid Q/A items found in ExportPayload.pairs'')\<close>
proof -
  have a: \<open>tryBlock ''{"bot":{},"pairs":[{"q":"x"}]}''
     = Inl (Error ''No valid Q/A items found in ExportPayload.pairs'')\<close>
    by code_simp
  have b: \<open>parseAnyQAPairs ''{"bot":{},"pairs":[{"q":"x"}]}''
     = Inl (Error ''Unsupported JSON format: could not find Q/A pairs'')\<close>
    by code_simp
  have c: \<open>tryBlock (''{"bot":{},"pairs":[{"x":'' @ [CHR 0x0A] @ ''["Q","A"]'' @ [CHR 0x0A] @ ''}]}'')
     = Inl (Error ''No valid Q/A items found in ExportPayload.pairs'')\<close>
    by code_simp
  have d: \<open>parseAnyQAPairs (''{"bot":{},"pairs":[{"x":'' @ [CHR 0x0A] @ ''["Q","A"]'' @ [CHR 0x0A] @ ''}]}'')
     = Inr \<lparr>metaPatch = None, pairs = [\<lparr>q = ''Q'', a = ''A'', tags = None\<rparr>]\<rparr>\<close>
    by code_simp
  have e: "parseAnyQAPairs jsonText \<noteq> Inl (Error ''No valid Q/A items found in ExportPayload.pairs'')"
    by (auto simp: parseAnyQAPairs_def Let_def split: sum.splits option.splits)
  from a b c d e show ?thesis by (intro conjI)
qed


lemma textField_intro:
  assumes "trim d = d" and "coerceStr (orJs (getProp b k) (JStr d)) = Inr r"
  shows "textField b k d r"
proof (cases "truthy (getProp b k)")
  case True
  then have c: "coerceStr (getProp b k) = Inr r" using assms(2) by (simp add: orJs_def)
  have "\<forall>s. getProp b k = JStr s \<longrightarrow> r = trim (orElse s d)"
  proof (intro allI impI)
    fix s assume s: "getProp b k = JStr s"
    with True have "s \<noteq> []" by (simp add: truthy_def)
    then show "r = trim (orElse s d)" using c s by (simp add: orElse_def)
  qed
  then show ?thesis using True c by (simp add: textField_def)
next
  case False
  then have r: "r = d" using assms by (simp add: orJs_def)
  have "\<forall>s. getProp b k = JStr s \<longrightarrow> r = trim (orElse s d)"
  proof (intro allI impI)
    fix s assume s: "getProp b k = JStr s"
    with False have "s = []" by (simp add: truthy_def)
    then show "r = trim (orElse s d)" using r assms(1) by (simp add: orElse_def)
  qed
  then show ?thesis using False r by (simp add: textField_def)
qed

lemma bindE_Inr: "bindE m f = Inr y \<Longrightarrow> \<exists>x. m = Inr x \<and> f x = Inr y"
  by (cases m) (auto simp: bindE_def)

lemma metaPatchOf_fields:
  assumes "metaPatchOf b = Inr mp"
  shows "coerceStr (orJs (getProp b ''lab'') (JStr [])) = Inr (lab mp)"
    and "coerceStr (orJs (getProp b ''name'') (JStr [])) = Inr (botName mp)"
    and "coerceStr (orJs (getProp b ''owner_email'') (JStr [])) = Inr (ownerEmail mp)"
    and "\<exists>d. description mp = Some d \<and> coerceStr (orJs (getProp b ''description'') (JStr [])) = Inr d"
    and "coerceStr (orJs (getProp b ''model'') (JStr ''qwen2.5:7b-instruct'')) = Inr (baseModel mp)"
    and "coerceStr (orJs (getProp b ''embed_model'') (JStr ''nomic-embed-text'')) = Inr (embedModel mp)"
    and "temperature mp = (case getProp b ''temperature'' of JNum r \<Rightarrow> Finite r | _ \<Rightarrow> Finite (2 / 10))"
    and "topP mp = (case getProp b ''top_p'' of JNum r \<Rightarrow> Finite r | _ \<Rightarrow> Finite (95 / 100))"
proof -
  from assms obtain l where l: "coerceStr (orJs (getProp b ''lab'') (JStr [])) = Inr l"
    and r1: "bindE (coerceStr (orJs (getProp b ''name'') (JStr []))) (\<lambda>n.
     bindE (coerceStr (orJs (getProp b ''owner_email'') (JStr []))) (\<lambda>e.
     bindE (coerceStr (orJs (getProp b ''description'') (JStr []))) (\<lambda>d.
     bindE (coerceStr (orJs (getProp b ''model'') (JStr ''qwen2.5:7b-instruct''))) (\<lambda>bm.
     bindE (coerceStr (orJs (getProp b ''embed_model'') (JStr ''nomic-embed-text''))) (\<lambda>em.
       Inr \<lparr>lab = l, botName = n, ownerEmail = e, description = Some d,
            baseModel = bm, embedModel = em,
            temperature = (case getProp b ''temperature'' of JNum r \<Rightarrow> Finite r | _ \<Rightarrow> Finite (2 / 10)),
            topP = (case getProp b ''top_p'' of JNum r \<Rightarrow> Finite r | _ \<Rightarrow> Finite (95 / 100))\<rparr>))))) = Inr mp"
    unfolding metaPatchOf_def by (blast dest: bindE_Inr)
  from r1 obtain n where n: "coerceStr (orJs (getProp b ''name'') (JStr [])) = Inr n"
    and r2: "bindE (coerceStr (orJs (getProp b ''owner_email'') (JStr []))) (\<lambda>e.
     bindE (coerceStr (orJs (getProp b ''description'') (JStr []))) (\<lambda>d.
     bindE (coerceStr (orJs (getProp b ''model'') (JStr ''qwen2.5:7b-instruct''))) (\<lambda>bm.
     bindE (coerceStr (orJs (getProp b ''embed_model'') (JStr ''nomic-embed-text''))) (\<lambda>em.
       Inr \<lparr>lab = l, botName = n, ownerEmail = e, description = Some d,
            baseModel = bm, embedModel = em,
            temperature = (case getProp b ''temperature'' of JNum r \<Rightarrow> Finite r | _ \<Rightarrow> Finite (2 / 10)),
            topP = (case getProp b ''top_p'' of JNum r \<Rightarrow> Finite r | _ \<Rightarrow> Finite (95 / 100))\<rparr>)))) = Inr mp"
    by (blast dest: bindE_Inr)
  from r2 obtain e where e: "coerceStr (orJs (getProp b ''owner_email'') (JStr [])) = Inr e"
    and r3: "bindE (coerceStr (orJs (getProp b ''description'') (JStr []))) (\<lambda>d.
     bindE (coerceStr (orJs (getProp b ''model'') (JStr ''qwen2.5:7b-instruct''))) (\<lambda>bm.
     bindE (coerceStr (orJs (getProp b ''embed_model'') (JStr ''nomic-embed-text''))) (\<lambda>em.
       Inr \<lparr>lab = l, botName = n, ownerEmail = e, description = Some d,
            baseModel = bm, embedModel = em,
            temperature = (case getProp b ''temperature'' of JNum r \<Rightarrow> Finite r | _ \<Rightarrow> Finite (2 / 10)),
            topP = (case getProp b ''top_p'' of JNum r \<Rightarrow> Finite r | _ \<Rightarrow> Finite (95 / 100))\<rparr>))) = Inr mp"
    by (blast dest: bindE_Inr)
  from r3 obtain d where d: "coerceStr (orJs (getProp b ''description'') (JStr [])) = Inr d"
    and r4: "bindE (coerceStr (orJs (getProp b ''model'') (JStr ''qwen2.5:7b-instruct''))) (\<lambda>bm.
     bindE (coerceStr (orJs (getProp b ''embed_model'') (JStr ''nomic-embed-text''))) (\<lambda>em.
       Inr \<lparr>lab = l, botName = n, ownerEmail = e, description = Some d,
            baseModel = bm, embedModel = em,
            temperature = (case getProp b ''temperature'' of JNum r \<Rightarrow> Finite r | _ \<Rightarrow> Finite (2 / 10)),
            topP = (case getProp b ''top_p'' of JNum r \<Rightarrow> Finite r | _ \<Rightarrow> Finite (95 / 100))\<rparr>)) = Inr mp"
    by (blast dest: bindE_Inr)
  from r4 obtain bm where bm: "coerceStr (orJs (getProp b ''model'') (JStr ''qwen2.5:7b-instruct'')) = Inr bm"
    and r5: "bindE (coerceStr (orJs (getProp b ''embed_model'') (JStr ''nomic-embed-text''))) (\<lambda>em.
       Inr \<lparr>lab = l, botName = n, ownerEmail = e, description = Some d,
            baseModel = bm, embedModel = em,
            temperature = (case getProp b ''temperature'' of JNum r \<Rightarrow> Finite r | _ \<Rightarrow> Finite (2 / 10)),
            topP = (case getProp b ''top_p'' of JNum r \<Rightarrow> Finite r | _ \<Rightarrow> Finite (95 / 100))\<rparr>) = Inr mp"
    by (blast dest: bindE_Inr)
  from r5 obtain em where em: "coerceStr (orJs (getProp b ''embed_model'') (JStr ''nomic-embed-text'')) = Inr em"
    and mp: "mp = \<lparr>lab = l, botName = n, ownerEmail = e, description = Some d,
            baseModel = bm, embedModel = em,
            temperature = (case getProp b ''temperature'' of JNum r \<Rightarrow> Finite r | _ \<Rightarrow> Finite (2 / 10)),
            topP = (case getProp b ''top_p'' of JNum r \<Rightarrow> Finite r | _ \<Rightarrow> Finite (95 / 100))\<rparr>"
    by (auto dest!: bindE_Inr)
  show "coerceStr (orJs (getProp b ''lab'') (JStr [])) = Inr (lab mp)" using l mp by simp
  show "coerceStr (orJs (getProp b ''name'') (JStr [])) = Inr (botName mp)" using n mp by simp
  show "coerceStr (orJs (getProp b ''owner_email'') (JStr [])) = Inr (ownerEmail mp)" using e mp by simp
  show "\<exists>d. description mp = Some d \<and> coerceStr (orJs (getProp b ''description'') (JStr [])) = Inr d"
    using d mp by simp
  show "coerceStr (orJs (getProp b ''model'') (JStr ''qwen2.5:7b-instruct'')) = Inr (baseModel mp)"
    using bm mp by simp
  show "coerceStr (orJs (getProp b ''embed_model'') (JStr ''nomic-embed-text'')) = Inr (embedModel mp)"
    using em mp by simp
  show "temperature mp = (case getProp b ''temperature'' of JNum r \<Rightarrow> Finite r | _ \<Rightarrow> Finite (2 / 10))"
    using mp by simp
  show "topP mp = (case getProp b ''top_p'' of JNum r \<Rightarrow> Finite r | _ \<Rightarrow> Finite (95 / 100))"
    using mp by simp
qed

lemma full_export_patch:
  assumes "JSON_parse jsonText = Inr data" "fullExportShape data"
    "parseAnyQAPairs jsonText = Inr r" "metaPatch r = Some mp"
  shows "metaPatchOf (nullish (getProp data ''bot'') (JObj [])) = Inr mp"
proof -
  have sh: "truthy data \<and> typeofObject data \<and> hasProp ''bot'' data \<and> hasProp ''pairs'' data
          \<and> isArray (getProp data ''pairs'')"
    using assms(2) hasProp_JObj[of "''bot''" data] by (simp add: fullExportShape_def)
  have "tryBlock jsonText = Inr (Some r)"
  proof (cases "tryBlock jsonText")
    case (Inl e)
    then show ?thesis using assms(3,4)
      by (auto simp: parseAnyQAPairs_def Let_def split: if_splits)
  next
    case (Inr res)
    then show ?thesis using assms(3,4)
      by (cases res) (auto simp: parseAnyQAPairs_def Let_def split: if_splits)
  qed
  then have "bindE (metaPatchOf (nullish (getProp data ''bot'') (JObj []))) (\<lambda>mp.
         bindE (extractAll (arrayItems (getProp data ''pairs''))) (\<lambda>prs.
           if length prs = 0 then Inl (Error ''No valid Q/A items found in ExportPayload.pairs'')
           else Inr (Some \<lparr>metaPatch = Some mp, pairs = prs\<rparr>))) = Inr (Some r)"
    using assms(1) sh by (simp add: tryBlock_def bindE_def)
  then obtain mp' where m: "metaPatchOf (nullish (getProp data ''bot'') (JObj [])) = Inr mp'"
    and "bindE (extractAll (arrayItems (getProp data ''pairs''))) (\<lambda>prs.
           if length prs = 0 then Inl (Error ''No valid Q/A items found in ExportPayload.pairs'')
           else Inr (Some \<lparr>metaPatch = Some mp', pairs = prs\<rparr>)) = Inr (Some r)"
    by (blast dest: bindE_Inr)
  then obtain prs where "(if length prs = 0 then Inl (Error ''No valid Q/A items found in ExportPayload.pairs'')
           else Inr (Some \<lparr>metaPatch = Some mp', pairs = prs\<rparr>)) = Inr (Some r)"
    by (blast dest: bindE_Inr)
  then have "r = \<lparr>metaPatch = Some mp', pairs = prs\<rparr>" by (auto split: if_splits)
  with assms(4) have "mp = mp'" by simp
  with m show ?thesis by simp
qed

lemma trim_defaults:
  "trim ''qwen2.5:7b-instruct'' = ''qwen2.5:7b-instruct''"
  "trim ''nomic-embed-text'' = ''nomic-embed-text''"
  by (simp_all add: trim_def isWhiteSpace_def)

text \<open>
  C5, as the code has it. When the text parses to an object with \<open>bot\<close> and an array
  \<open>pairs\<close>, and the call returns a metadata patch, then with \<open>bot\<close> the value of that
  property (the empty object when it is \<open>null\<close>): \<open>lab\<close>, \<open>botName\<close>, \<open>ownerEmail\<close> and
  \<open>description\<close> follow \<open>bot.lab\<close>, \<open>bot.name\<close>, \<open>bot.owner_email\<close> and
  \<open>bot.description\<close> with the empty string as default, \<open>baseModel\<close> follows \<open>bot.model\<close>
  with default \<open>qwen2.5:7b-instruct\<close> and \<open>embedModel\<close> follows \<open>bot.embed_model\<close> with
  default \<open>nomic-embed-text\<close>, each in the sense of \<open>textField\<close>: the default stands for a
  falsy value only (absent, \<open>null\<close>, \<open>false\<close>, \<open>0\<close>, the empty string), a string is
  trimmed, and any other value is turned into its string. \<open>temperature\<close> is
  \<open>bot.temperature\<close> when that is a number and 0.2 otherwise, \<open>topP\<close> is \<open>bot.top_p\<close>
  when that is a number and 0.95 otherwise.
\<close>

theorem metaPatch_mapping:
  assumes "JSON_parse jsonText = Inr data" and "fullExportShape data"
    and "parseAnyQAPairs jsonText = Inr r" and "metaPatch r = Some mp"
  shows "(let b = nullish (getProp data ''bot'') (JObj []) in
          textField b ''lab'' [] (lab mp)
        \<and> textField b ''name'' [] (botName mp)
        \<and> textField b ''owner_email'' [] (ownerEmail mp)
        \<and> (\<exists>d. description mp = Some d \<and> textField b ''description'' [] d)
        \<and> textField b ''model'' ''qwen2.5:7b-instruct'' (baseModel mp)
        \<and> textField b ''embed_model'' ''nomic-embed-text'' (embedModel mp)
        \<and> temperature mp = (case getProp b ''temperature'' of JNum x \<Rightarrow> Finite x | _ \<Rightarrow> Finite (2 / 10))
        \<and> topP mp = (case getProp b ''top_p'' of JNum x \<Rightarrow> Finite x | _ \<Rightarrow> Finite (95 / 100)))"
proof -
  let ?b = "nullish (getProp data ''bot'') (JObj [])"
  have m: "metaPatchOf ?b = Inr mp" using assms by (rule full_export_patch)
  note f = metaPatchOf_fields[OF m]
  have t1: "textField ?b ''lab'' [] (lab mp)" using f(1) by (intro textField_intro) simp_all
  have t2: "textField ?b ''name'' [] (botName mp)" using f(2) by (intro textField_intro) simp_all
  have t3: "textField ?b ''owner_email'' [] (ownerEmail mp)"
    using f(3) by (intro textField_intro) simp_all
  from f(4) obtain d where d: "description mp = Some d"
    "coerceStr (orJs (getProp ?b ''description'') (JStr [])) = Inr d" by blast
  have "textField ?b ''description'' [] d" using d(2) by (intro textField_intro) simp_all
  then have t4: "\<exists>d. description mp = Some d \<and> textField ?b ''description'' [] d"
    using d(1) by blast
  have t5: "textField ?b ''model'' ''qwen2.5:7b-instruct'' (baseModel mp)"
    using f(5) trim_defaults(1) by (intro textField_intro)
  have t6: "textField ?b ''embed_model'' ''nomic-embed-text'' (embedModel mp)"
    using f(6) trim_defaults(2) by (intro textField_intro)
  from t1 t2 t3 t4 t5 t6 f(7) f(8) show ?thesis unfolding Let_def by (intro conjI)
qed

text \<open>A text whose \<open>bot\<close> has a padded \<open>lab\<close>, \<open>false\<close> for the name, an empty \<open>model\<close>,
  \<open>true\<close> for \<open>embed_model\<close>, a numeric \<open>temperature\<close> and a string \<open>top_p\<close>.\<close>

theorem metaPatch_mapping_witness:
  \<open>parseAnyQAPairs
     ''{"bot":{"lab":" IALS ","name":false,"model":"","embed_model":true,"temperature":0.7,"top_p":"0.5"},"pairs":[["q","a"]]}''
    = Inr \<lparr>metaPatch = Some \<lparr>lab = ''IALS'', botName = [], ownerEmail = [], description = Some [],
                               baseModel = ''qwen2.5:7b-instruct'', embedModel = ''true'',
                               temperature = Finite (7 / 10), topP = Finite (95 / 100)\<rparr>,
            pairs = [\<lparr>q = ''q'', a = ''a'', tags = None\<rparr>]\<rparr>
   \<and> textField
        (JObj [(''lab'', JStr '' IALS ''), (''name'', JBool False), (''model'', JStr []),
               (''embed_model'', JBool True), (''temperature'', JNum (7 / 10)), (''top_p'', JStr ''0.5'')])
        ''embed_model'' ''nomic-embed-text'' ''true''
   \<and> textField
        (JObj [(''lab'', JStr '' IALS ''), (''name'', JBool False), (''model'', JStr []),
               (''embed_model'', JBool True), (''temperature'', JNum (7 / 10)), (''top_p'', JStr ''0.5'')])
        ''model'' ''qwen2.5:7b-instruct'' ''qwen2.5:7b-instruct''\<close>
proof -
  let ?t = \<open>''{"bot":{"lab":" IALS ","name":false,"model":"","embed_model":true,"temperature":0.7,"top_p":"0.5"},"pairs":[["q","a"]]}''\<close>
  let ?b = "JObj [(''lab'', JStr '' IALS ''), (''name'', JBool False), (''model'', JStr []),
               (''embed_model'', JBool True), (''temperature'', JNum (7 / 10)), (''top_p'', JStr ''0.5'')]"
  let ?data = "JObj [(''bot'', ?b), (''pairs'', JArr [JArr [JStr ''q'', JStr ''a'']])]"
  let ?mp = "\<lparr>lab = ''IALS'', botName = [], ownerEmail = [], description = Some [],
                               baseModel = ''qwen2.5:7b-instruct'', embedModel = ''true'',
                               temperature = Finite (7 / 10), topP = Finite (95 / 100)\<rparr>"
  let ?r = "\<lparr>metaPatch = Some ?mp, pairs = [\<lparr>q = ''q'', a = ''a'', tags = None\<rparr>]\<rparr>"
  have p: "JSON_parse ?t = Inr ?data" by code_simp
  have s: "fullExportShape ?data" by code_simp
  have r: "parseAnyQAPairs ?t = Inr ?r" by code_simp
  have m: "metaPatch ?r = Some ?mp" by simp
  have b: "nullish (getProp ?data ''bot'') (JObj []) = ?b" by (simp add: nullish_def getProp_def)
  from metaPatch_mapping[OF p s r m]
  have "textField ?b ''embed_model'' ''nomic-embed-text'' ''true''
      \<and> textField ?b ''model'' ''qwen2.5:7b-instruct'' ''qwen2.5:7b-instruct''"
    unfolding Let_def b by simp
  with r show ?thesis by blast
qed

text \<open>
  C5 as stated fails where \<open>bot.model\<close> is not a string: for \<open>true\<close> the patch holds the
  text \<open>true\<close>, not the default model.
\<close>

theorem metaPatch_nonstring_model_counterexample:
  \<open>parseAnyQAPairs ''{"bot":{"model":true},"pairs":[["q","a"]]}''
    = Inr \<lparr>metaPatch = Some \<lparr>lab = [], botName = [], ownerEmail = [], description = Some [],
                               baseModel = ''true'', embedModel = ''nomic-embed-text'',
                               temperature = Finite (2 / 10), topP = Finite (95 / 100)\<rparr>,
            pairs = [\<lparr>q = ''q'', a = ''a'', tags = None\<rparr>]\<rparr>\<close>
  by code_simp


section \<open>Numbers read back\<close>

lemma pow10_powi: "pow10 e = 10 powi e"
  by (simp add: pow10_def power_int_def field_simps)

lemma scaleUp_step_value:
  fixes p d :: int
  assumes "0 < d" and g: "g = gcd d 10"
  shows "(of_int (p * (10 div g)) :: rat) / of_int (d div g) / 10 ^ Suc k
           = of_int p / of_int d / 10 ^ k"
    and "0 < d div g" and "d div g dvd d"
proof -
  have gd: "g dvd d" and g10: "g dvd 10" by (simp_all add: g)
  have "0 \<le> g" and "g \<noteq> 0" by (simp_all add: g)
  then have gpos: "0 < g" by linarith
  from gd obtain d' where d': "d = g * d'" unfolding dvd_def by blast
  from g10 obtain t where t: "10 = g * t" unfolding dvd_def by blast
  have gne: "g \<noteq> 0" using gpos by simp
  have d'pos: "0 < d'" using d' assms(1) gpos by (simp add: zero_less_mult_iff)
  have e1: "d div g = d'" using nonzero_mult_div_cancel_left[OF gne, of d'] d' by simp
  have e2: "10 div g = t" by (subst t) (simp add: gne)
  have r1: "(of_int d :: rat) = of_int g * of_int d'" by (simp add: d')
  have "(of_int (10 :: int) :: rat) = of_int g * of_int t" by (simp only: t of_int_mult)
  then have r2: "(10 :: rat) = of_int g * of_int t" by simp
  have gr: "(of_int g :: rat) \<noteq> 0" and dr: "(of_int d' :: rat) \<noteq> 0" using gne d'pos by simp_all
  have tne: "t \<noteq> 0" using t by auto
  then have tr: "(of_int t :: rat) \<noteq> 0" by simp
  have key: "(of_int p :: rat) * of_int t / of_int d' / (of_int g * of_int t * X)
          = of_int p / (of_int g * of_int d') / X" for X :: rat
    using gr dr tr by (simp add: field_simps)
  have "(of_int (p * t) :: rat) / of_int d' / (10 * 10 ^ k)
          = of_int p / (of_int g * of_int d') / 10 ^ k"
    using key[of "10 ^ k"] by (simp only: of_int_mult r2[symmetric])
  then show "(of_int (p * (10 div g)) :: rat) / of_int (d div g) / 10 ^ Suc k
           = of_int p / of_int d / 10 ^ k"
    unfolding e1 e2 r1 by simp
  show "0 < d div g" unfolding e1 by (rule d'pos)
  show "d div g dvd d" unfolding e1 by (simp add: d')
qed

lemma scaleUp_value:
  "0 < d \<Longrightarrow> d dvd 10 ^ K \<Longrightarrow> scaleUp p d k = (m, k')
     \<Longrightarrow> (of_int p :: rat) / of_int d / 10 ^ k = of_int m / 10 ^ k'"
proof (induction p d k rule: scaleUp.induct)
  case (1 p d k)
  show ?case
  proof (cases "d \<le> 1 \<or> gcd d 10 = 1")
    case True
    have "d = 1"
    proof (cases "d \<le> 1")
      case True
      with "1.prems"(1) show ?thesis by simp
    next
      case False
      with True have "coprime d 10" by (simp add: coprime_iff_gcd_eq_1)
      then have "coprime d (10 ^ K)" by simp
      then have "is_unit d" using dvd_refl "1.prems"(2) by (rule coprime_common_divisor)
      with "1.prems"(1) show ?thesis by simp
    qed
    moreover from True "1.prems"(3) have "m = p" "k' = k" by (simp_all add: scaleUp.simps[of p d k])
    ultimately show ?thesis by simp
  next
    case False
    note st = scaleUp_step_value(1)[OF "1.prems"(1) refl, of p k]
      scaleUp_step_value(2)[OF "1.prems"(1) refl] scaleUp_step_value(3)[OF "1.prems"(1) refl]
    have ddvd: "d div gcd d 10 dvd 10 ^ K" using st(3) "1.prems"(2) by (rule dvd_trans)
    from False "1.prems"(3) have s: "scaleUp (p * (10 div gcd d 10)) (d div gcd d 10) (Suc k) = (m, k')"
      by (simp add: scaleUp.simps[of p d k])
    have "(of_int (p * (10 div gcd d 10)) :: rat) / of_int (d div gcd d 10) / 10 ^ Suc k
            = of_int m / 10 ^ k'"
      using "1.IH"[OF False st(2) ddvd s] .
    with st(1) show ?thesis by simp
  qed
qed

lemma stripZeros_value:
  "0 < n \<Longrightarrow> stripZeros n z = (s, z')
     \<Longrightarrow> z \<le> z' \<and> n = s * 10 ^ (z' - z) \<and> 0 < s \<and> s mod 10 \<noteq> 0"
proof (induction n z rule: stripZeros.induct)
  case (1 n z)
  show ?case
  proof (cases "n \<noteq> 0 \<and> n mod 10 = 0")
    case True
    then have pos: "0 < n div 10" by presburger
    from True "1.prems"(2) have s: "stripZeros (n div 10) (Suc z) = (s, z')"
      by (simp add: stripZeros.simps[of n z])
    from "1.IH"[OF True pos s] have ih: "Suc z \<le> z'" "n div 10 = s * 10 ^ (z' - Suc z)"
      "0 < s" "s mod 10 \<noteq> 0" by simp_all
    have "n = (n div 10) * 10" using True by presburger
    also have "\<dots> = s * 10 ^ (z' - Suc z) * 10" using ih(2) by simp
    also have "\<dots> = s * 10 ^ Suc (z' - Suc z)" by simp
    also have "Suc (z' - Suc z) = z' - z" using ih(1) by simp
    finally show ?thesis using ih by simp
  next
    case False
    with "1.prems" show ?thesis by (simp add: stripZeros.simps[of n z])
  qed
qed

lemma digit_char:
  assumes "n < 10"
  shows "isDigit (digitChar n)" "digitVal (digitChar n) = n" "(digitChar n = CHR ''0'') = (n = 0)"
proof -
  from assms consider "n = 0" | "n = 1" | "n = 2" | "n = 3" | "n = 4" | "n = 5" | "n = 6" | "n = 7"
    | "n = 8" | "n = 9"
    by atomize_elim arith
  then have "isDigit (digitChar n) \<and> digitVal (digitChar n) = n \<and> (digitChar n = CHR ''0'') = (n = 0)"
    by cases (simp_all add: digitChar_def isDigit_def in_range_def digitVal_def)
  then show "isDigit (digitChar n)" "digitVal (digitChar n) = n" "(digitChar n = CHR ''0'') = (n = 0)"
    by simp_all
qed

lemma natOfDigits_snoc: "natOfDigits (ds @ [c]) = natOfDigits ds * 10 + digitVal c"
  by (simp add: natOfDigits_def)

lemma natDigits_props:
  "natDigits n \<noteq> [] \<and> list_all isDigit (natDigits n) \<and> natOfDigits (natDigits n) = n
     \<and> (0 < n \<longrightarrow> hd (natDigits n) \<noteq> CHR ''0'')
     \<and> (n mod 10 \<noteq> 0 \<longrightarrow> last (natDigits n) \<noteq> CHR ''0'')"
proof (induction n rule: natDigits.induct)
  case (1 n)
  show ?case
  proof (cases "n < 10")
    case True
    then have e: "natDigits n = [digitChar n]" by (simp add: natDigits.simps[of n] digitChar_def)
    show ?thesis
      unfolding e using digit_char[OF True] True
      by (simp add: natOfDigits_def)
  next
    case False
    then have e: "natDigits n = natDigits (n div 10) @ [digitChar (n mod 10)]"
      by (simp add: natDigits.simps[of n] digitChar_def)
    have m: "n mod 10 < 10" by simp
    have pos: "0 < n div 10" using False by simp
    from "1.IH"[OF False] pos have ih: "natDigits (n div 10) \<noteq> []"
      "list_all isDigit (natDigits (n div 10))" "natOfDigits (natDigits (n div 10)) = n div 10"
      "hd (natDigits (n div 10)) \<noteq> CHR ''0''" by simp_all
    show ?thesis
      unfolding e using ih digit_char[OF m]
      by (simp add: natOfDigits_snoc)
  qed
qed


lemma takeWhile_digits: "list_all isDigit ds \<Longrightarrow> stops s \<Longrightarrow> takeWhile isDigit (ds @ s) = ds"
  by (induction ds) (auto simp: stops_def split: list.splits)

lemma dropWhile_digits: "list_all isDigit ds \<Longrightarrow> stops s \<Longrightarrow> dropWhile isDigit (ds @ s) = s"
  by (induction ds) (auto simp: stops_def split: list.splits)

lemma not_digit: "\<not> isDigit CHR ''-''" "\<not> isDigit CHR ''.''" "\<not> isDigit CHR ''e''"
  "\<not> isDigit CHR '',''" "\<not> isDigit CHR '']''" "\<not> isDigit CHR ''}''" "\<not> isDigit CHR ''+''"
  by (simp_all add: isDigit_def in_range_def)

lemma delimited_stops: "delimited rest \<Longrightarrow> stops rest"
  by (auto simp: delimited_def stops_def not_digit split: list.splits)

lemma fracPart_none: "delimited s \<or> (\<exists>t. s = CHR ''e'' # t) \<Longrightarrow> fracPart s = Some ([], s)"
  by (auto simp: fracPart_def delimited_def split: list.splits)

lemma fracPart_some:
  "f \<noteq> [] \<Longrightarrow> list_all isDigit f \<Longrightarrow> stops s \<Longrightarrow> fracPart (CHR ''.'' # f @ s) = Some (f, s)"
  by (simp add: fracPart_def takeWhile_digits dropWhile_digits)

lemma expPart_none: "delimited s \<Longrightarrow> expPart s = Some (0, s)"
  by (auto simp: expPart_def delimited_def split: list.splits)

lemma expPart_some:
  assumes "ds \<noteq> []" "list_all isDigit ds" "stops s"
  shows "expPart (CHR ''e'' # CHR ''+'' # ds @ s) = Some (int (natOfDigits ds), s)"
    and "expPart (CHR ''e'' # CHR ''-'' # ds @ s) = Some (- int (natOfDigits ds), s)"
  using assms by (simp_all add: expPart_def takeWhile_digits dropWhile_digits)

lemma parseNumber_parts:
  assumes "isDigit d" "list_all isDigit ip" "d = CHR ''0'' \<longrightarrow> ip = []" "stops s2"
    "fracPart s2 = Some (fr, s3)" "expPart s3 = Some (ex, s4)"
  shows "parseNumber (d # ip @ s2)
           = Some (of_nat (natOfDigits (d # ip @ fr)) * pow10 (ex - int (length fr)), s4)"
    and "parseNumber (CHR ''-'' # d # ip @ s2)
           = Some (- (of_nat (natOfDigits (d # ip @ fr)) * pow10 (ex - int (length fr))), s4)"
proof -
  have nd: "d \<noteq> CHR ''-''" using assms(1) not_digit(1) by auto
  have tw: "takeWhile isDigit (ip @ s2) = ip" "dropWhile isDigit (ip @ s2) = s2"
    using assms(2,4) by (simp_all add: takeWhile_digits dropWhile_digits)
  show "parseNumber (d # ip @ s2)
           = Some (of_nat (natOfDigits (d # ip @ fr)) * pow10 (ex - int (length fr)), s4)"
    using assms(1,3,5,6) nd by (simp add: parseNumber_def tw)
  show "parseNumber (CHR ''-'' # d # ip @ s2)
           = Some (- (of_nat (natOfDigits (d # ip @ fr)) * pow10 (ex - int (length fr))), s4)"
    using assms(1,3,5,6) nd by (simp add: parseNumber_def tw)
qed

lemma natOfDigits_append:
  "natOfDigits (xs @ ys) = natOfDigits xs * 10 ^ length ys + natOfDigits ys"
proof (induction ys rule: rev_induct)
  case Nil
  show ?case by (simp add: natOfDigits_def)
next
  case (snoc y ys)
  have "natOfDigits (xs @ ys @ [y]) = natOfDigits ((xs @ ys) @ [y])" by simp
  also have "\<dots> = natOfDigits (xs @ ys) * 10 + digitVal y" by (rule natOfDigits_snoc)
  also have "\<dots> = (natOfDigits xs * 10 ^ length ys + natOfDigits ys) * 10 + digitVal y"
    by (simp only: snoc.IH)
  also have "\<dots> = natOfDigits xs * 10 ^ length (ys @ [y]) + natOfDigits (ys @ [y])"
    by (simp add: natOfDigits_snoc algebra_simps)
  finally show ?case .
qed

lemma natOfDigits_zeros: "natOfDigits (replicate n CHR ''0'') = 0"
proof (induction n)
  case 0
  show ?case by (simp add: natOfDigits_def)
next
  case (Suc n)
  have "replicate (Suc n) CHR ''0'' = replicate n CHR ''0'' @ [CHR ''0'']"
    by (simp add: replicate_append_same)
  then have "natOfDigits (replicate (Suc n) CHR ''0'') = natOfDigits (replicate n CHR ''0'') * 10 + digitVal CHR ''0''"
    by (simp only: natOfDigits_snoc)
  then show ?case by (simp add: Suc.IH digitVal_def)
qed

lemma zeros_digits: "list_all isDigit (replicate n CHR ''0'')"
  by (simp add: list_all_iff isDigit_def in_range_def)


lemma formatDecimal_reads:
  assumes ne: "ds \<noteq> []" and dg: "list_all isDigit ds" and hd0: "hd ds \<noteq> CHR ''0''"
    and rest: "delimited rest"
  shows "\<exists>c t. formatDecimal ds n = c # t \<and> isDigit c
           \<and> parseNumber (c # t @ rest)
               = Some (of_nat (natOfDigits ds) * 10 powi (n - int (length ds)), rest)
           \<and> parseNumber (CHR ''-'' # c # t @ rest)
               = Some (- (of_nat (natOfDigits ds) * 10 powi (n - int (length ds))), rest)"
proof -
  from ne obtain d ds' where ds: "ds = d # ds'" by (cases ds) auto
  from dg ds have d: "isDigit d" and dg': "list_all isDigit ds'" by simp_all
  from hd0 ds have d0: "d \<noteq> CHR ''0''" by simp
  let ?L = "int (length ds)"
  let ?v = "(of_nat (natOfDigits ds) :: rat) * 10 powi (n - ?L)"
  have sr: "stops rest" using rest by (rule delimited_stops)
  have Lpos: "0 < ?L" using ne by simp
  have fr0: "fracPart rest = Some ([], rest)" using rest by (simp add: fracPart_none)
  have ex0: "expPart rest = Some (0, rest)" using rest by (rule expPart_none)
  have goal: "\<exists>c t. formatDecimal ds n = c # t \<and> isDigit c
           \<and> parseNumber (c # t @ rest) = Some (?v, rest)
           \<and> parseNumber (CHR ''-'' # c # t @ rest) = Some (- ?v, rest)"
    if f: "formatDecimal ds n = c # ip @ mid"
      and ip: "list_all isDigit ip" and c: "isDigit c" "c = CHR ''0'' \<longrightarrow> ip = []"
      and st: "stops (mid @ rest)"
      and fp: "fracPart (mid @ rest) = Some (fr, s3)" and ep: "expPart s3 = Some (ex, rest)"
      and v: "(of_nat (natOfDigits (c # ip @ fr)) :: rat) * pow10 (ex - int (length fr)) = ?v"
    for c ip mid fr s3 ex
  proof -
    note pn = parseNumber_parts[OF c(1) ip c(2) st fp ep]
    show ?thesis
      by (intro exI[of _ c] exI[of _ "ip @ mid"]) (simp add: f c(1) pn v)
  qed
  consider (int) "?L \<le> n" "n \<le> 21" | (frac) "0 < n" "n < ?L" "n \<le> 21"
    | (small) "- 6 < n" "n \<le> 0" | (exp) "n > 21 \<or> n \<le> - 6"
    by atomize_elim arith
  then show ?thesis
  proof cases
    case int
    let ?z = "replicate (nat (n - ?L)) CHR ''0''"
    have f: "formatDecimal ds n = d # (ds' @ ?z) @ []"
      using int by (simp add: formatDecimal_def Let_def ds)
    have "natOfDigits (d # (ds' @ ?z) @ []) = natOfDigits (ds @ ?z)" by (simp add: ds)
    also have "\<dots> = natOfDigits ds * 10 ^ nat (n - ?L)"
      by (simp add: natOfDigits_append natOfDigits_zeros)
    finally have "(of_nat (natOfDigits (d # (ds' @ ?z) @ [])) :: rat) * pow10 (0 - int (length ([] :: string)))
                    = of_nat (natOfDigits ds) * 10 ^ nat (n - ?L)"
      by (simp add: pow10_def)
    also have "\<dots> = ?v" using int by (simp add: power_int_def)
    finally have v: "(of_nat (natOfDigits (d # (ds' @ ?z) @ [])) :: rat) * pow10 (0 - int (length ([] :: string))) = ?v" .
    show ?thesis
      by (rule goal[OF f _ d _ _ _ ex0 v])
         (simp_all add: dg' zeros_digits d0 sr fr0)
  next
    case frac
    from frac obtain k where n1: "nat n = Suc k" by (cases "nat n") auto
    have tk: "take (nat n) ds = d # take k ds'" by (simp only: n1 ds take_Suc_Cons)
    let ?f = "drop (nat n) ds"
    have fne: "?f \<noteq> []" using frac by simp
    have fdg: "list_all isDigit ?f" using dg by (auto simp: list_all_iff dest: in_set_dropD)
    have f: "formatDecimal ds n = d # take k ds' @ (CHR ''.'' # ?f)"
      using frac by (simp add: formatDecimal_def Let_def tk)
    have fp: "fracPart ((CHR ''.'' # ?f) @ rest) = Some (?f, rest)"
      using fracPart_some[OF fne fdg sr] by simp
    have "d # take k ds' @ ?f = ds" using tk append_take_drop_id[of "nat n" ds] by simp
    moreover have "int (length ?f) = ?L - n" using frac by simp
    ultimately have v: "(of_nat (natOfDigits (d # take k ds' @ ?f)) :: rat) * pow10 (0 - int (length ?f)) = ?v"
      by (simp add: pow10_powi)
    have tdg: "list_all isDigit (take k ds')"
      using dg' by (auto simp: list_all_iff dest: in_set_takeD)
    show ?thesis
      by (rule goal[OF f tdg d _ _ fp ex0 v]) (simp_all add: d0 stops_def not_digit)
  next
    case small
    let ?z = "replicate (nat (- n)) CHR ''0''"
    let ?f = "?z @ ds"
    have nl: "\<not> ?L \<le> n" using small Lpos by linarith
    have f: "formatDecimal ds n = CHR ''0'' # [] @ (CHR ''.'' # ?f)"
      using small nl by (simp add: formatDecimal_def Let_def)
    have fne: "?f \<noteq> []" using ne by simp
    have fdg: "list_all isDigit ?f" using dg zeros_digits by simp
    have fp: "fracPart ((CHR ''.'' # ?f) @ rest) = Some (?f, rest)"
      using fracPart_some[OF fne fdg sr] by simp
    have e: "CHR ''0'' # [] @ ?f = replicate (Suc (nat (- n))) CHR ''0'' @ ds" by simp
    have "natOfDigits (replicate (Suc (nat (- n))) CHR ''0'' @ ds) = natOfDigits ds"
      unfolding natOfDigits_append natOfDigits_zeros by simp
    then have "natOfDigits (CHR ''0'' # [] @ ?f) = natOfDigits ds" by (simp only: e)
    moreover have "int (length ?f) = ?L - n" using small by simp
    ultimately have v: "(of_nat (natOfDigits (CHR ''0'' # [] @ ?f)) :: rat) * pow10 (0 - int (length ?f)) = ?v"
      by (simp add: pow10_powi)
    have z: "isDigit CHR ''0''" by (simp add: isDigit_def in_range_def)
    show ?thesis
      by (rule goal[OF f _ z _ _ fp ex0 v]) (simp_all add: stops_def not_digit)
  next
    case exp
    let ?e = "n - 1"
    define m where "m = nat \<bar>n - 1\<bar>"
    have im: "int m = \<bar>n - 1\<bar>" by (simp add: m_def)
    let ?E = "natDigits m"
    let ?x = "CHR ''e'' # (if ?e < 0 then CHR ''-'' else CHR ''+'') # ?E"
    have E: "?E \<noteq> []" "list_all isDigit ?E" "natOfDigits ?E = m"
      using natDigits_props[of m] by simp_all
    have ep: "expPart (?x @ rest) = Some (?e, rest)"
    proof (cases "?e < 0")
      case True
      then have x: "?x = CHR ''e'' # CHR ''-'' # ?E" by simp
      have "- int m = ?e" using im True by linarith
      then show ?thesis
        unfolding x using expPart_some(2)[OF E(1,2) sr] by (simp add: E(3))
    next
      case False
      then have x: "?x = CHR ''e'' # CHR ''+'' # ?E" by simp
      have "int m = ?e" using im False by linarith
      then show ?thesis
        unfolding x using expPart_some(1)[OF E(1,2) sr] by (simp add: E(3))
    qed
    have not: "(?L \<le> n \<and> n \<le> 21) = False" "(0 < n \<and> n \<le> 21) = False"
      "(- 6 < n \<and> n \<le> 0) = False"
      using exp by auto
    have fd: "formatDecimal ds n =
        (if ?L = 1 then ds @ ''e'' @ (if ?e < 0 then ''-'' else ''+'') @ natDigits (nat \<bar>?e\<bar>)
         else take 1 ds @ ''.'' @ drop 1 ds @ ''e'' @ (if ?e < 0 then ''-'' else ''+'')
                @ natDigits (nat \<bar>?e\<bar>))"
      by (simp only: formatDecimal_def Let_def not if_False)
    show ?thesis
    proof (cases "ds' = []")
      case True
      have f: "formatDecimal ds n = d # [] @ ?x"
        unfolding fd by (simp add: ds True m_def)
      have fp: "fracPart (?x @ rest) = Some ([], ?x @ rest)"
        by (rule fracPart_none) simp
      have v: "(of_nat (natOfDigits (d # [] @ [])) :: rat) * pow10 (?e - int (length ([] :: string))) = ?v"
        by (simp add: ds True pow10_powi)
      show ?thesis
        by (rule goal[OF f _ d _ _ fp ep v]) (simp_all add: stops_def not_digit)
    next
      case False
      have f: "formatDecimal ds n = d # [] @ (CHR ''.'' # ds' @ ?x)"
        unfolding fd using False by (simp add: ds m_def)
      have sx: "stops (?x @ rest)" by (simp add: stops_def not_digit)
      have fp: "fracPart ((CHR ''.'' # ds' @ ?x) @ rest) = Some (ds', ?x @ rest)"
        using fracPart_some[OF False dg' sx] by simp
      have ee: "?e - int (length ds') = n - ?L" by (simp add: ds)
      have v: "(of_nat (natOfDigits (d # [] @ ds')) :: rat) * pow10 (?e - int (length ds')) = ?v"
        unfolding ee pow10_powi by (simp add: ds)
      show ?thesis
        by (rule goal[OF f _ d _ _ fp ep v]) (simp_all add: stops_def not_digit)
    qed
  qed
qed


lemma positiveToString_reads:
  assumes pos: "0 < r" and dec: "decimal r" and rest: "delimited rest"
  shows "\<exists>c t. positiveToString r = c # t \<and> isDigit c
           \<and> parseNumber (c # t @ rest) = Some (r, rest)
           \<and> parseNumber (CHR ''-'' # c # t @ rest) = Some (- r, rest)"
proof -
  obtain p d where q: "quotient_of r = (p, d)" by (cases "quotient_of r") auto
  have dpos: "0 < d" using q by (rule quotient_of_denom_pos)
  have cop: "coprime p d" using q by (rule quotient_of_coprime)
  have r: "r = of_int p / of_int d" using q by (rule quotient_of_div)
  from dec obtain M K where MK: "r = of_int M / 10 ^ K" unfolding decimal_def by blast
  have dr: "(of_int d :: rat) \<noteq> 0" using dpos by simp
  have "(of_int p :: rat) / of_int d = of_int M / 10 ^ K" using r MK by simp
  then have "(of_int p :: rat) * 10 ^ K = of_int M * of_int d" using dr by (simp add: field_simps)
  then have "(of_int (p * 10 ^ K) :: rat) = of_int (M * d)" by simp
  then have "p * 10 ^ K = M * d" by (simp only: of_int_eq_iff)
  then have "d dvd p * 10 ^ K" by (simp add: dvd_def mult.commute)
  moreover have "coprime d p" using cop by (simp add: coprime_commute)
  ultimately have ddvd: "d dvd 10 ^ K" by (simp add: coprime_dvd_mult_right_iff)
  obtain m k where su: "scaleUp p d 0 = (m, k)" by (cases "scaleUp p d 0") auto
  have rm: "r = of_int m / 10 ^ k" using scaleUp_value[OF dpos ddvd su] r by simp
  have mpos: "0 < m"
  proof -
    have "0 < (of_int m :: rat) / 10 ^ k" using pos rm by simp
    then have "0 < (of_int m :: rat)" by (simp add: zero_less_divide_iff)
    then show ?thesis by simp
  qed
  then have npos: "0 < nat m" by simp
  obtain s z where sz: "stripZeros (nat m) 0 = (s, z)" by (cases "stripZeros (nat m) 0") auto
  from stripZeros_value[OF npos sz] have ms: "nat m = s * 10 ^ z" and spos: "0 < s" by simp_all
  let ?ds = "natDigits s"
  let ?n = "int (length ?ds) + int z - int k"
  have pts: "positiveToString r = formatDecimal ?ds ?n"
    by (simp add: positiveToString_def q su sz Let_def)
  have P: "?ds \<noteq> []" "list_all isDigit ?ds" "natOfDigits ?ds = s" "hd ?ds \<noteq> CHR ''0''"
    using natDigits_props[of s] spos by simp_all
  have "of_int m = (of_nat (nat m) :: rat)" using mpos by simp
  also have "\<dots> = of_nat s * 10 ^ z" by (simp add: ms)
  finally have "r = of_nat s * (10 ^ z / 10 ^ k)" using rm by simp
  also have "(10 :: rat) ^ z / 10 ^ k = 10 powi (int z - int k)"
    by (simp add: power_int_diff)
  finally have val: "of_nat (natOfDigits ?ds) * 10 powi (?n - int (length ?ds)) = r"
    by (simp add: P(3))
  from formatDecimal_reads[OF P(1,2,4) rest, of ?n] show ?thesis
    unfolding pts val .
qed

lemma decimal_reads_back:
  assumes "decimal r"
  shows "numberReadsBack r"
proof -
  consider (zero) "r = 0" | (neg) "r < 0" | (pos) "0 < r" by atomize_elim arith
  then show ?thesis
  proof cases
    case zero
    have z: "isDigit CHR ''0''" by (simp add: isDigit_def in_range_def)
    have "parseNumber (CHR ''0'' # [] @ rest) = Some (0, rest)" if d: "delimited rest" for rest
      using parseNumber_parts(1)[OF z, of "[]" rest "[]" rest 0 rest]
        fracPart_none[of rest] expPart_none[OF d] delimited_stops[OF d] d
      by (simp add: natOfDigits_def digitVal_def)
    then show ?thesis
      unfolding numberReadsBack_def using zero z
      by (intro exI[of _ "CHR ''0''"] exI[of _ "[]"]) (simp add: Number_toString_def)
  next
    case neg
    then have p: "0 < - r" by simp
    from assms obtain M K where "r = of_int M / 10 ^ K" unfolding decimal_def by blast
    then have "- r = of_int (- M) / 10 ^ K" by simp
    then have d: "decimal (- r)" unfolding decimal_def by blast
    have nt: "Number_toString r = CHR ''-'' # positiveToString (- r)"
      using neg by (simp add: Number_toString_def)
    have "parseNumber (CHR ''-'' # positiveToString (- r) @ rest) = Some (r, rest)"
      if dl: "delimited rest" for rest
      using positiveToString_reads[OF p d dl] by auto
    then show ?thesis
      unfolding numberReadsBack_def nt
      by (intro exI[of _ "CHR ''-''"] exI[of _ "positiveToString (- r)"]) simp
  next
    case pos
    have nt: "Number_toString r = positiveToString r"
      using pos by (simp add: Number_toString_def)
    from positiveToString_reads[OF pos assms, of "[]"] obtain c t
      where ct: "positiveToString r = c # t" "isDigit c" by (auto simp: delimited_def)
    have "parseNumber (c # t @ rest) = Some (r, rest)" if dl: "delimited rest" for rest
      using positiveToString_reads[OF pos assms dl] ct(1) by auto
    then show ?thesis
      unfolding numberReadsBack_def nt ct(1) using ct(2)
      by (intro exI[of _ c] exI[of _ t]) simp
  qed
qed


section \<open>JSON.parse reads back what JSON.stringify writes\<close>

lemma hexVal_digit:
  "d < 16 \<Longrightarrow> hexVal (''0123456789abcdef'' ! d) = Some d"
proof -
  assume "d < 16"
  then consider "d = 0" | "d = 1" | "d = 2" | "d = 3" | "d = 4" | "d = 5" | "d = 6" | "d = 7"
    | "d = 8" | "d = 9" | "d = 10" | "d = 11" | "d = 12" | "d = 13" | "d = 14" | "d = 15"
    by atomize_elim arith
  then show ?thesis
    by cases (simp_all add: hexVal_def isDigit_def in_range_def)
qed

lemma parseChars_quoteChar:
  "parseChars (quoteChar c @ s) = consChar c (parseChars s)"
proof -
  let ?n = "of_char c :: nat"
  consider (b) "c = CHR 0x08" | (t) "c = CHR 0x09" | (n) "c = CHR 0x0A" | (f) "c = CHR 0x0C"
    | (r) "c = CHR 0x0D" | (q) "c = CHR 0x22" | (bs) "c = CHR 0x5C"
    | (ctl) "c \<noteq> CHR 0x08" "c \<noteq> CHR 0x09" "c \<noteq> CHR 0x0A" "c \<noteq> CHR 0x0C" "c \<noteq> CHR 0x0D"
        "c \<noteq> CHR 0x22" "c \<noteq> CHR 0x5C" "?n < 32"
    | (plain) "c \<noteq> CHR 0x22" "c \<noteq> CHR 0x5C" "\<not> ?n < 32"
    by (cases "?n < 32") auto
  then show ?thesis
  proof cases
    case ctl
    have d: "?n div 16 < 16" "?n mod 16 < 16" using ctl(8) by simp_all
    have z: "?n div 4096 mod 16 = 0" "?n div 256 mod 16 = 0" "?n div 16 mod 16 = ?n div 16"
      using ctl(8) by simp_all
    have h: "hex4 ?n = [CHR ''0'', CHR ''0'', ''0123456789abcdef'' ! (?n div 16),
                          ''0123456789abcdef'' ! (?n mod 16)]"
      by (simp add: hex4_def z)
    have h0: "hexVal CHR ''0'' = Some 0" using hexVal_digit[of 0] by simp
    have code: "((0 * 16 + 0) * 16 + ?n div 16) * 16 + ?n mod 16 = ?n" by simp
    have q: "quoteChar c = [CHR 0x5C, CHR ''u''] @ hex4 ?n"
      using ctl by (simp add: quoteChar_def)
    show ?thesis
      using ctl(8)
      by (simp add: q h h0 hexVal_digit[OF d(1)] hexVal_digit[OF d(2)] code Let_def
          del: of_char_Char)
  next
    case plain
    then have "quoteChar c = [c]" by (auto simp: quoteChar_def)
    then show ?thesis using plain by simp
  qed (simp_all add: quoteChar_def unescape_def)
qed

lemma parseChars_quoted:
  "parseChars (concat (map quoteChar s) @ CHR 0x22 # rest) = Some (s, rest)"
  by (induction s) (simp_all add: parseChars_quoteChar consChar_def)

lemma quoteJSONString_Cons:
  "quoteJSONString s @ rest = CHR 0x22 # concat (map quoteChar s) @ CHR 0x22 # rest"
  by (simp add: quoteJSONString_def)


lemma skipWs_Cons [simp]: "\<not> isJsonWs c \<Longrightarrow> skipWs (c # cs) = c # cs"
  by (simp add: skipWs_def)

lemma notWs_punct [simp]:
  "\<not> isJsonWs CHR ''{''" "\<not> isJsonWs CHR ''}''" "\<not> isJsonWs CHR ''[''" "\<not> isJsonWs CHR '']''"
  "\<not> isJsonWs CHR '',''" "\<not> isJsonWs CHR '':''" "\<not> isJsonWs CHR 0x22"
  "\<not> isJsonWs CHR ''t''" "\<not> isJsonWs CHR ''f''" "\<not> isJsonWs CHR ''n''" "\<not> isJsonWs CHR ''-''"
  by (simp_all add: isJsonWs_def)

lemma isDigit_notWs: "isDigit c \<Longrightarrow> \<not> isJsonWs c"
  by (auto simp: isDigit_def in_range_def isJsonWs_def)

lemma isDigit_not_punct:
  "isDigit c \<Longrightarrow> c \<noteq> CHR ''{'' \<and> c \<noteq> CHR ''['' \<and> c \<noteq> CHR 0x22 \<and> c \<noteq> CHR ''t''
     \<and> c \<noteq> CHR ''f'' \<and> c \<noteq> CHR ''n'' \<and> c \<noteq> CHR '']'' \<and> c \<noteq> CHR ''}''"
  by (auto simp: isDigit_def in_range_def)

lemma stringify_start:
  "printable v \<Longrightarrow>
     \<exists>c t. JSON_stringify v = c # t \<and> \<not> isJsonWs c \<and> c \<noteq> CHR '']'' \<and> c \<noteq> CHR ''}''"
proof (cases v)
  case (JNum r)
  assume "printable v"
  then obtain c t where "Number_toString r = c # t" "c = CHR ''-'' \<or> isDigit c"
    using JNum by (auto simp: numberReadsBack_def)
  then show ?thesis using JNum isDigit_notWs[of c] isDigit_not_punct[of c] by auto
qed (auto simp: quoteJSONString_def)

lemma setProp_fresh: "k \<notin> set (map fst acc) \<Longrightarrow> setProp acc k v = acc @ [(k, v)]"
  by (induction acc) auto

lemma delimited_simps [simp]:
  "delimited []" "delimited (CHR '','' # s)" "delimited (CHR '']'' # s)" "delimited (CHR ''}'' # s)"
  by (simp_all add: delimited_def)

lemma parseElements_join:
  assumes "xs \<noteq> []"
    and "\<forall>x\<in>set xs. printable x \<and>
           (\<forall>rest. delimited rest \<longrightarrow> parseValue (JSON_stringify x @ rest) = Some (jsonImage x, rest))"
  shows "parseElements (join '','' (map JSON_stringify xs) @ CHR '']'' # rest) acc
           = Some (JArr (acc @ map jsonImage xs), rest)"
  using assms
proof (induction xs arbitrary: acc)
  case Nil
  then show ?case by simp
next
  case (Cons x xs)
  from Cons.prems(2) have px: "printable x"
    and rx: "\<And>rest. delimited rest \<Longrightarrow> parseValue (JSON_stringify x @ rest) = Some (jsonImage x, rest)"
    by auto
  from stringify_start[OF px] have ne: "JSON_stringify x \<noteq> []" by auto
  show ?case
  proof (cases xs)
    case Nil
    have "parseValue (JSON_stringify x @ CHR '']'' # rest) = Some (jsonImage x, CHR '']'' # rest)"
      by (rule rx) simp
    then show ?thesis
      using Nil ne by (subst parseElements.simps) simp
  next
    case (Cons y ys)
    let ?tail = "join '','' (map JSON_stringify xs) @ CHR '']'' # rest"
    have pv: "parseValue (JSON_stringify x @ CHR '','' # ?tail) = Some (jsonImage x, CHR '','' # ?tail)"
      by (rule rx) simp
    have ih: "parseElements ?tail (acc @ [jsonImage x]) = Some (JArr ((acc @ [jsonImage x]) @ map jsonImage xs), rest)"
      using Cons.IH[of "acc @ [jsonImage x]"] Cons.prems(2) Cons by simp
    have j: "join '','' (map JSON_stringify (x # xs)) @ CHR '']'' # rest
               = JSON_stringify x @ CHR '','' # ?tail"
      using Cons by simp
    show ?thesis
      unfolding j using pv ih ne by (subst parseElements.simps) simp
  qed
qed

lemma parseMembers_join:
  assumes "kvs \<noteq> []"
    and "\<forall>kv\<in>set kvs. printable (snd kv) \<and>
           (\<forall>rest. delimited rest \<longrightarrow>
              parseValue (JSON_stringify (snd kv) @ rest) = Some (jsonImage (snd kv), rest))"
    and "distinct (map fst kvs)"
    and "set (map fst kvs) \<inter> set (map fst acc) = {}"
  shows "parseMembers
           (join '','' (map (\<lambda>(k, v). quoteJSONString k @ '':'' @ JSON_stringify v) kvs)
              @ CHR ''}'' # rest) acc
           = Some (JObj (acc @ map (\<lambda>(k, v). (k, jsonImage v)) kvs), rest)"
  using assms
proof (induction kvs arbitrary: acc)
  case Nil
  then show ?case by simp
next
  case (Cons kv kvs)
  obtain k v where kv: "kv = (k, v)" by (cases kv)
  from Cons.prems(2) kv have pv: "printable v"
    and rv: "\<And>rest. delimited rest \<Longrightarrow> parseValue (JSON_stringify v @ rest) = Some (jsonImage v, rest)"
    by auto
  from stringify_start[OF pv] have ne: "JSON_stringify v \<noteq> []" by auto
  have fresh: "k \<notin> set (map fst acc)" using Cons.prems(4) kv by auto
  have sp: "setProp acc k (jsonImage v) = acc @ [(k, jsonImage v)]"
    using fresh by (rule setProp_fresh)
  show ?case
  proof (cases kvs)
    case Nil
    have p: "parseValue (JSON_stringify v @ CHR ''}'' # rest) = Some (jsonImage v, CHR ''}'' # rest)"
      by (rule rv) simp
    show ?thesis
      using Nil kv ne p sp
      by (subst parseMembers.simps) (simp add: quoteJSONString_def parseChars_quoted)
  next
    case (Cons kv' kvs')
    let ?tail = "join '','' (map (\<lambda>(k, v). quoteJSONString k @ '':'' @ JSON_stringify v) kvs)
              @ CHR ''}'' # rest"
    have p: "parseValue (JSON_stringify v @ CHR '','' # ?tail) = Some (jsonImage v, CHR '','' # ?tail)"
      by (rule rv) simp
    have d: "set (map fst kvs) \<inter> set (map fst (acc @ [(k, jsonImage v)])) = {}"
      using Cons.prems(3,4) kv by auto
    have ih: "parseMembers ?tail (acc @ [(k, jsonImage v)])
                = Some (JObj ((acc @ [(k, jsonImage v)]) @ map (\<lambda>(k, v). (k, jsonImage v)) kvs), rest)"
      using Cons.IH[of "acc @ [(k, jsonImage v)]"] Cons.prems(2,3) Cons d by simp
    have j: "join '','' (map (\<lambda>(k, v). quoteJSONString k @ '':'' @ JSON_stringify v) (kv # kvs))
              @ CHR ''}'' # rest
            = CHR 0x22 # concat (map quoteChar k) @ CHR 0x22 # CHR '':'' # JSON_stringify v @ CHR '','' # ?tail"
      using Cons kv by (simp add: quoteJSONString_def)
    show ?thesis
      unfolding j using p ih ne sp kv
      by (subst parseMembers.simps) (simp add: parseChars_quoted)
  qed
qed

lemma parse_stringify:
  "printable v \<Longrightarrow> delimited rest
     \<Longrightarrow> parseValue (JSON_stringify v @ rest) = Some (jsonImage v, rest)"
proof (induction v arbitrary: rest)
  case JUndefined
  show ?case by (subst parseValue.simps) simp
next
  case JNull
  show ?case by (subst parseValue.simps) simp
next
  case (JBool b)
  show ?case by (subst parseValue.simps) simp
next
  case (JNum r)
  then obtain c t where n: "Number_toString r = c # t" "c = CHR ''-'' \<or> isDigit c"
    "parseNumber (c # t @ rest) = Some (r, rest)"
    by (auto simp: numberReadsBack_def)
  have "\<not> isJsonWs c" "c \<noteq> CHR ''{''" "c \<noteq> CHR ''[''" "c \<noteq> CHR 0x22" "c \<noteq> CHR ''t''"
    "c \<noteq> CHR ''f''" "c \<noteq> CHR ''n''"
    using n(2) isDigit_notWs[of c] isDigit_not_punct[of c] by auto
  then show ?case using n by (subst parseValue.simps) simp
next
  case (JStr s)
  show ?case
    by (subst parseValue.simps) (simp add: quoteJSONString_def parseChars_quoted)
next
  case (JArr xs)
  show ?case
  proof (cases xs)
    case Nil
    then show ?thesis by (subst parseValue.simps) simp
  next
    case (Cons y ys)
    then have ne: "xs \<noteq> []" by simp
    have all: "\<forall>x\<in>set xs. printable x \<and>
           (\<forall>rest. delimited rest \<longrightarrow> parseValue (JSON_stringify x @ rest) = Some (jsonImage x, rest))"
      using JArr by (auto simp: list_all_iff)
    have py: "printable y" using JArr.prems(1) Cons by simp
    from stringify_start[OF py] obtain c t where st: "JSON_stringify y = c # t" "\<not> isJsonWs c"
      "c \<noteq> CHR '']''" by auto
    have hd: "\<exists>u. join '','' (map JSON_stringify xs) @ CHR '']'' # rest = c # u"
      using Cons st(1) by (cases ys) simp_all
    then obtain u where u: "join '','' (map JSON_stringify xs) @ CHR '']'' # rest = c # u" by blast
    have "parseElements (c # u) [] = Some (JArr ([] @ map jsonImage xs), rest)"
      using parseElements_join[OF ne all, of rest "[]"] u by simp
    then show ?thesis
      using u st(2,3) by (subst parseValue.simps) simp
  qed
next
  case (JObj kvs)
  let ?kvs = "filter (\<lambda>(k, v). v \<noteq> JUndefined) kvs"
  let ?mem = "\<lambda>(k, v). quoteJSONString k @ '':'' @ JSON_stringify v"
  show ?case
  proof (cases ?kvs)
    case Nil
    then show ?thesis by (subst parseValue.simps) simp
  next
    case (Cons kv kvs')
    then have ne: "?kvs \<noteq> []" by simp
    have all: "\<forall>kv\<in>set ?kvs. printable (snd kv) \<and>
           (\<forall>rest. delimited rest \<longrightarrow>
              parseValue (JSON_stringify (snd kv) @ rest) = Some (jsonImage (snd kv), rest))"
    proof
      fix kv assume "kv \<in> set ?kvs"
      then have m: "kv \<in> set kvs" by simp
      then have p: "printable (snd kv)" using JObj.prems(1) by (auto simp: list_all_iff)
      have "snd kv \<in> Basic_BNFs.snds kv" by (cases kv) simp
      with JObj.IH[OF m] p
      show "printable (snd kv) \<and>
           (\<forall>rest. delimited rest \<longrightarrow>
              parseValue (JSON_stringify (snd kv) @ rest) = Some (jsonImage (snd kv), rest))"
        by blast
    qed
    have dist: "distinct (map fst ?kvs)" using JObj.prems(1) by simp
    obtain k v where kv: "kv = (k, v)" by (cases kv)
    have hd: "\<exists>u. join '','' (map ?mem ?kvs) @ CHR ''}'' # rest = CHR 0x22 # u"
      using Cons kv by (cases kvs') (simp_all add: quoteJSONString_def)
    then obtain u where u: "join '','' (map ?mem ?kvs) @ CHR ''}'' # rest = CHR 0x22 # u" by blast
    have "parseMembers (CHR 0x22 # u) [] = Some (JObj ([] @ map (\<lambda>(k, v). (k, jsonImage v)) ?kvs), rest)"
      using parseMembers_join[OF ne all dist, of "[]" rest] u by simp
    then show ?thesis
      using u by (subst parseValue.simps) simp
  qed
qed

lemma JSON_parse_stringify:
  "printable v \<Longrightarrow> JSON_parse (JSON_stringify v) = Inr (jsonImage v)"
  using parse_stringify[of v "[]"] by (simp add: JSON_parse_def skipWs_def)


section \<open>C2: the round trip through the payload\<close>

lemma trim_fix: "s \<noteq> [] \<Longrightarrow> \<not> isWhiteSpace (hd s) \<Longrightarrow> \<not> isWhiteSpace (last s) \<Longrightarrow> trim s = s"
proof -
  assume a: "s \<noteq> []" "\<not> isWhiteSpace (hd s)" "\<not> isWhiteSpace (last s)"
  then have 1: "dropWhile isWhiteSpace s = s" by (cases s) auto
  have "rev s \<noteq> []" "\<not> isWhiteSpace (hd (rev s))" using a by (simp_all add: hd_rev)
  then have 2: "dropWhile isWhiteSpace (rev s) = rev s" by (cases "rev s") auto
  show ?thesis by (simp add: trim_def 1 2)
qed

lemma trim_idem [simp]: "trim (trim s) = trim s"
proof (cases "trim s = []")
  case True
  then show ?thesis by simp
next
  case False
  then show ?thesis using trim_ends[of s] trim_fix[of "trim s"] by blast
qed

lemma coerceStr_orJs_JStr: "coerceStr (orJs (JStr s) (JStr d)) = Inr (trim (orElse s d))"
  by (simp add: orJs_def truthy_def orElse_def)

lemma coerceStr_orJs_JUndefined: "coerceStr (orJs JUndefined (JStr d)) = Inr (trim d)"
  by (simp add: orJs_def truthy_def)

lemma sequenceE_Inr_map: "sequenceE (map (\<lambda>x. Inr (g x)) xs) = Inr (map g xs)"
  by (induction xs) (simp_all add: bindE_def)

lemma map_filter_if:
  "List.map_filter (\<lambda>r. r) (map (\<lambda>p. if P p then Some (g p) else None) xs) = map g (filter P xs)"
  by (induction xs) (simp_all add: List.map_filter_simps)

lemma jsonImage_qaValue:
  "jsonImage (qaValue e) =
     JObj ([(''q'', JStr (q e)), (''a'', JStr (a e))]
           @ (case tags e of None \<Rightarrow> [] | Some ts \<Rightarrow> [(''tags'', JArr (map JStr ts))]))"
proof -
  have "map jsonImage (map JStr ts) = map JStr ts" for ts
    by (induction ts) simp_all
  then show ?thesis by (simp add: qaValue_def split: option.splits)
qed

lemma extractItem_exported:
  "extractItem (jsonImage (qaValue (exportPair p)))
     = Inr (if wellFormedPair p then Some (roundTripPair p) else None)"
proof -
  let ?e = "exportPair p"
  let ?o = "jsonImage (qaValue ?e)"
  have o: "?o = JObj ([(''q'', JStr (trim (q p))), (''a'', JStr (trim (a p)))]
           @ (case tags ?e of None \<Rightarrow> [] | Some ts \<Rightarrow> [(''tags'', JArr (map JStr ts))]))"
    by (simp add: jsonImage_qaValue) (simp add: exportPair_def)
  have na: "\<not> isArray ?o" by (simp add: o isArray_def)
  have tr: "truthy ?o" "typeofObject ?o" by (simp_all add: o truthy_def typeofObject_def)
  have fq: "find (\<lambda>k. hasProp k ?o) qKeys = Some ''q''"
    by (simp add: o qKeys_def hasProp_def)
  have fa: "find (\<lambda>k. hasProp k ?o) aKeys = Some ''a''"
    by (simp add: o aKeys_def hasProp_def)
  have gq: "getProp ?o ''q'' = JStr (trim (q p))" by (simp add: o getProp_def)
  have ga: "getProp ?o ''a'' = JStr (trim (a p))" by (simp add: o getProp_def)
  have gt: "getProp ?o ''tags'' =
      (case tags ?e of None \<Rightarrow> JUndefined | Some ts \<Rightarrow> JArr (map JStr ts))"
    by (simp add: o getProp_def split: option.splits)
  have tg: "(case getProp ?o ''tags'' of
               JArr ts \<Rightarrow> bindE (sequenceE (map coerceStr ts)) (\<lambda>ss. Inr (nonEmptyTags ss))
             | _ \<Rightarrow> Inr None) = Inr (tags (roundTripPair p))"
  proof (cases "tags p")
    case None
    then have "tags ?e = None" by (simp add: exportPair_def)
    then show ?thesis using None by (simp only: gt) (simp add: roundTripPair_def)
  next
    case (Some ts)
    have m: "map coerceStr (map JStr ts) = map (\<lambda>x. Inr (trim x)) ts" by simp
    show ?thesis
    proof (cases "ts = []")
      case True
      then have "tags ?e = None" using Some by (simp add: exportPair_def)
      then show ?thesis using Some True
        by (simp only: gt) (simp add: roundTripPair_def nonEmptyTags_def)
    next
      case False
      then have "tags ?e = Some ts" using Some by (simp add: exportPair_def)
      then show ?thesis using Some
        by (simp only: gt option.case jsvalue.case m sequenceE_Inr_map)
           (simp add: roundTripPair_def bindE_def)
    qed
  qed
  have "extractQAFromObject ?o =
      (if trim (q p) = [] \<or> trim (a p) = [] then Inr None
       else Inr (Some \<lparr>q = trim (q p), a = trim (a p), tags = tags (roundTripPair p)\<rparr>))"
    unfolding extractQAFromObject_def
    by (simp add: fq fa gq ga tg tr bindE_def)
  then show ?thesis
    using na by (simp add: extractItem_def wellFormedPair_def roundTripPair_def)
qed

lemma extractAll_exported:
  "extractAll (map (\<lambda>p. jsonImage (qaValue (exportPair p))) prs)
     = Inr (map roundTripPair (filter wellFormedPair prs))"
proof -
  have "map extractItem (map (\<lambda>p. jsonImage (qaValue (exportPair p))) prs)
      = map (\<lambda>p. Inr (if wellFormedPair p then Some (roundTripPair p) else None)) prs"
    by (simp add: extractItem_exported)
  then show ?thesis
    by (simp only: extractAll_def sequenceE_Inr_map) (simp add: bindE_def map_filter_if)
qed

lemma jsonImage_payload:
  "jsonImage (payloadValue (exportPayload m prs now)) =
     JObj [(''bot'',
            JObj ([(''name'', JStr (orElse (trim (botName m)) ''Untitled Bot'')),
                   (''lab'', JStr (trim (lab m))),
                   (''owner_email'', JStr (trim (ownerEmail m)))]
                  @ (case description m of
                       None \<Rightarrow> []
                     | Some d \<Rightarrow> if trim d = [] then [] else [(''description'', JStr (trim d))])
                  @ [(''slug'', JStr (slugOf m)),
                     (''model'', JStr (orElse (baseModel m) ''qwen2.5:7b-instruct'')),
                     (''embed_model'', JStr (orElse (embedModel m) ''nomic-embed-text'')),
                     (''temperature'', numberValue (temperature m)),
                     (''top_p'', numberValue (topP m))])),
           (''pairs'', JArr (map (\<lambda>p. jsonImage (qaValue (exportPair p))) prs)),
           (''created_at'', JStr now),
           (''version'', JStr ''2025-09-16'')]"
proof -
  have n: "jsonImage (numberValue x) = numberValue x \<and> numberValue x \<noteq> JUndefined" for x
    by (cases x) (simp_all add: numberValue_def)
  show ?thesis
    by (simp add: payloadValue_def exportPayload_def optStr_def n comp_def split: option.splits)
qed

lemma number_patch:
  "(case numberValue x of JNum r \<Rightarrow> Finite r | _ \<Rightarrow> Finite d) = finiteOr x d"
  by (cases x) (simp_all add: numberValue_def finiteOr_def)

lemma import_of_parsed_payload:
  assumes "validateMeta m"
    and "\<exists>p\<in>set prs. wellFormedPair p"
    and "JSON_parse (JSON_stringify (payloadValue (exportPayload m prs now)))
           = Inr (jsonImage (payloadValue (exportPayload m prs now)))"
  shows "parseAnyQAPairs (JSON_stringify (payloadValue (exportPayload m prs now)))
           = Inr \<lparr>metaPatch = Some (roundTripMeta m),
                  pairs = map roundTripPair (filter wellFormedPair prs)\<rparr>"
proof -
  let ?T = "JSON_stringify (payloadValue (exportPayload m prs now))"
  let ?B = "JObj ([(''name'', JStr (orElse (trim (botName m)) ''Untitled Bot'')),
                   (''lab'', JStr (trim (lab m))),
                   (''owner_email'', JStr (trim (ownerEmail m)))]
                  @ (case description m of
                       None \<Rightarrow> []
                     | Some d \<Rightarrow> if trim d = [] then [] else [(''description'', JStr (trim d))])
                  @ [(''slug'', JStr (slugOf m)),
                     (''model'', JStr (orElse (baseModel m) ''qwen2.5:7b-instruct'')),
                     (''embed_model'', JStr (orElse (embedModel m) ''nomic-embed-text'')),
                     (''temperature'', numberValue (temperature m)),
                     (''top_p'', numberValue (topP m))])"
  let ?D = "JObj [(''bot'', ?B),
           (''pairs'', JArr (map (\<lambda>p. jsonImage (qaValue (exportPair p))) prs)),
           (''created_at'', JStr now),
           (''version'', JStr ''2025-09-16'')]"
  have parse: "JSON_parse ?T = Inr ?D"
    using assms(3) by (simp only: jsonImage_payload)
  have nm: "trim (botName m) \<noteq> []" using assms(1) by (simp add: validateMeta_def)
  have g1: "getProp ?B ''lab'' = JStr (trim (lab m))"
    by (simp add: getProp_def split: option.splits)
  have g2: "getProp ?B ''name'' = JStr (trim (botName m))"
    using nm by (simp add: getProp_def orElse_def split: option.splits)
  have g3: "getProp ?B ''owner_email'' = JStr (trim (ownerEmail m))"
    by (simp add: getProp_def split: option.splits)
  have g4: "coerceStr (orJs (getProp ?B ''description'') (JStr []))
              = Inr (case description m of None \<Rightarrow> [] | Some d \<Rightarrow> trim d)"
    by (auto simp: getProp_def coerceStr_orJs_JStr coerceStr_orJs_JUndefined
        split: option.splits)
  have g5: "getProp ?B ''model'' = JStr (orElse (baseModel m) ''qwen2.5:7b-instruct'')"
    by (simp add: getProp_def split: option.splits)
  have g6: "getProp ?B ''embed_model'' = JStr (orElse (embedModel m) ''nomic-embed-text'')"
    by (simp add: getProp_def split: option.splits)
  have g7: "getProp ?B ''temperature'' = numberValue (temperature m)"
    by (simp add: getProp_def split: option.splits)
  have g8: "getProp ?B ''top_p'' = numberValue (topP m)"
    by (simp add: getProp_def split: option.splits)
  have o5: "orElse (orElse (baseModel m) ''qwen2.5:7b-instruct'') ''qwen2.5:7b-instruct''
              = orElse (baseModel m) ''qwen2.5:7b-instruct''"
    "orElse (orElse (embedModel m) ''nomic-embed-text'') ''nomic-embed-text''
              = orElse (embedModel m) ''nomic-embed-text''"
    by (simp_all add: orElse_def)
  have patch: "metaPatchOf ?B = Inr (roundTripMeta m)"
    unfolding metaPatchOf_def
    by (simp only: g1 g2 g3 g4 g5 g6 g7 g8 coerceStr_orJs_JStr number_patch o5)
       (simp add: bindE_def roundTripMeta_def)
  have shape: "(truthy ?D \<and> typeofObject ?D \<and> hasProp ''bot'' ?D \<and> hasProp ''pairs'' ?D
          \<and> isArray (getProp ?D ''pairs'')) = True"
    by (simp add: truthy_def typeofObject_def hasProp_def getProp_def isArray_def)
  have bot: "nullish (getProp ?D ''bot'') (JObj []) = ?B"
    by (simp add: nullish_def getProp_def)
  have items: "arrayItems (getProp ?D ''pairs'')
                 = map (\<lambda>p. jsonImage (qaValue (exportPair p))) prs"
    by (simp add: arrayItems_def getProp_def)
  have ne: "map roundTripPair (filter wellFormedPair prs) \<noteq> []"
    using assms(2) by (auto simp: filter_empty_conv)
  have "tryBlock ?T =
     bindE (metaPatchOf (nullish (getProp ?D ''bot'') (JObj []))) (\<lambda>mp.
         bindE (extractAll (arrayItems (getProp ?D ''pairs''))) (\<lambda>prs.
           if length prs = 0 then Inl (Error ''No valid Q/A items found in ExportPayload.pairs'')
           else Inr (Some \<lparr>metaPatch = Some mp, pairs = prs\<rparr>)))"
    unfolding tryBlock_def by (simp only: parse bindE_def sum.case shape if_True)
  then have "tryBlock ?T = Inr (Some \<lparr>metaPatch = Some (roundTripMeta m),
                  pairs = map roundTripPair (filter wellFormedPair prs)\<rparr>)"
    using ne by (simp only: bot items patch extractAll_exported) (simp add: bindE_def)
  then show ?thesis by (simp add: parseAnyQAPairs_def)
qed

lemma printable_payload:
  assumes "decimalNumber (temperature m)" and "decimalNumber (topP m)"
  shows "printable (payloadValue (exportPayload m prs now))"
proof -
  have n: "printable (numberValue x)" if "decimalNumber x" for x
    using that by (cases x) (simp_all add: numberValue_def decimalNumber_def decimal_reads_back)
  have q: "printable (qaValue e)" for e
    by (simp add: qaValue_def list_all_iff split: option.splits)
  show ?thesis
    using n[OF assms(1)] n[OF assms(2)] q
    by (simp add: payloadValue_def exportPayload_def optStr_def list_all_iff split: option.splits)
qed

text \<open>
  C2, as the code has it. Take metadata that pass \<open>validateMeta\<close> and a pair list with
  at least one pair whose question and answer are not empty after trimming, the
  \<open>temperature\<close> and \<open>topP\<close> being decimal fractions when they are finite (as
  the value of every double is). Then the import of the payload's JSON
  text succeeds by the full-export strategy. Its metadata patch is the trimmed metadata,
  except that an empty \<open>baseModel\<close> or \<open>embedModel\<close> comes back as the default
  model name and a \<open>temperature\<close> or \<open>topP\<close> that is not finite comes back as 0.2 or
  0.95. Its pairs are the pairs whose trimmed question and answer are both not empty, in
  order, each with question and answer trimmed and its tags trimmed, the empty ones
  dropped, an empty tag list absent; the other pairs are not recovered.
\<close>

theorem payload_round_trip:
  assumes "validateMeta m"
    and "\<exists>p\<in>set prs. wellFormedPair p"
    and "decimalNumber (temperature m)" and "decimalNumber (topP m)"
  shows "parseAnyQAPairs (JSON_stringify (payloadValue (exportPayload m prs now)))
           = Inr \<lparr>metaPatch = Some (roundTripMeta m),
                  pairs = map roundTripPair (filter wellFormedPair prs)\<rparr>"
proof -
  have "printable (payloadValue (exportPayload m prs now))"
    using assms(3,4) by (rule printable_payload)
  then have "JSON_parse (JSON_stringify (payloadValue (exportPayload m prs now)))
           = Inr (jsonImage (payloadValue (exportPayload m prs now)))"
    by (rule JSON_parse_stringify)
  with assms(1,2) show ?thesis by (rule import_of_parsed_payload)
qed

text \<open>Valid metadata with padded fields, a complete pair with padded tags and a blank
  pair: the text is read back, the blank pair is not recovered.\<close>

theorem payload_round_trip_witness:
  "parseAnyQAPairs (JSON_stringify (payloadValue (exportPayload
      \<lparr>lab = '' IALS '', botName = ''Privacy-LLM'', ownerEmail = ''prof@umass.edu'',
       description = Some [], baseModel = ''qwen2.5:7b-instruct'', embedModel = ''nomic-embed-text'',
       temperature = Finite (2 / 10), topP = Finite (95 / 100)\<rparr>
      [\<lparr>q = '' What is RAG? '', a = ''Retrieval.'', tags = Some ['' x '', []], id' = ''1''\<rparr>,
       \<lparr>q = '' '', a = [], tags = Some [], id' = ''2''\<rparr>]
      ''2025-09-16T00:00:00.000Z'')))
   = Inr \<lparr>metaPatch = Some
             \<lparr>lab = ''IALS'', botName = ''Privacy-LLM'', ownerEmail = ''prof@umass.edu'',
              description = Some [], baseModel = ''qwen2.5:7b-instruct'',
              embedModel = ''nomic-embed-text'',
              temperature = Finite (2 / 10), topP = Finite (95 / 100)\<rparr>,
           pairs = [\<lparr>q = ''What is RAG?'', a = ''Retrieval.'', tags = Some [''x'']\<rparr>]\<rparr>"
proof -
  let ?m = "\<lparr>lab = '' IALS '', botName = ''Privacy-LLM'', ownerEmail = ''prof@umass.edu'',
       description = Some [], baseModel = ''qwen2.5:7b-instruct'', embedModel = ''nomic-embed-text'',
       temperature = Finite (2 / 10), topP = Finite (95 / 100)\<rparr>"
  let ?ps = "[\<lparr>q = '' What is RAG? '', a = ''Retrieval.'', tags = Some ['' x '', []], id' = ''1''\<rparr>,
       \<lparr>q = '' '', a = [], tags = Some [], id' = ''2''\<rparr>]"
  let ?now = "''2025-09-16T00:00:00.000Z''"
  have v: "validateMeta ?m" by code_simp
  have w: "\<exists>p\<in>set ?ps. wellFormedPair p" by code_simp
  have "decimal (2 / 10)" unfolding decimal_def by (intro exI[of _ 2] exI[of _ 1]) simp
  moreover have "decimal (95 / 100)" unfolding decimal_def by (intro exI[of _ 95] exI[of _ 2]) simp
  ultimately have h: "decimalNumber (temperature ?m)" "decimalNumber (topP ?m)"
    by (simp_all add: decimalNumber_def)
  have r: "roundTripMeta ?m = \<lparr>lab = ''IALS'', botName = ''Privacy-LLM'', ownerEmail = ''prof@umass.edu'',
              description = Some [], baseModel = ''qwen2.5:7b-instruct'',
              embedModel = ''nomic-embed-text'',
              temperature = Finite (2 / 10), topP = Finite (95 / 100)\<rparr>"
    by code_simp
  have f: "map roundTripPair (filter wellFormedPair ?ps)
             = [\<lparr>q = ''What is RAG?'', a = ''Retrieval.'', tags = Some [''x'']\<rparr>]"
    by code_simp
  show ?thesis
    using payload_round_trip[OF v w h, of ?now] by (simp only: r f)
qed

text \<open>
  C2 as stated fails on the metadata: with an empty \<open>baseModel\<close>, which
  \<open>validateMeta\<close> accepts, and one complete pair, the patch holds the default model
  name, not the (empty) trimmed \<open>baseModel\<close>.
\<close>

theorem payload_round_trip_counterexample:
  "validateMeta
      \<lparr>lab = ''IALS'', botName = ''Privacy-LLM'', ownerEmail = ''prof@umass.edu'',
       description = Some [], baseModel = [], embedModel = ''nomic-embed-text'',
       temperature = Finite (2 / 10), topP = Finite (95 / 100)\<rparr>
   \<and> parseAnyQAPairs (JSON_stringify (payloadValue (exportPayload
        \<lparr>lab = ''IALS'', botName = ''Privacy-LLM'', ownerEmail = ''prof@umass.edu'',
         description = Some [], baseModel = [], embedModel = ''nomic-embed-text'',
         temperature = Finite (2 / 10), topP = Finite (95 / 100)\<rparr>
        [\<lparr>q = ''What is RAG?'', a = ''Retrieval.'', tags = Some [''x''], id' = ''1''\<rparr>]
        ''2025-09-16T00:00:00.000Z'')))
     = Inr \<lparr>metaPatch = Some
               \<lparr>lab = ''IALS'', botName = ''Privacy-LLM'', ownerEmail = ''prof@umass.edu'',
                description = Some [], baseModel = ''qwen2.5:7b-instruct'',
                embedModel = ''nomic-embed-text'',
                temperature = Finite (2 / 10), topP = Finite (95 / 100)\<rparr>,
             pairs = [\<lparr>q = ''What is RAG?'', a = ''Retrieval.'', tags = Some [''x'']\<rparr>]\<rparr>
   \<and> baseModel (trimmedMeta
        \<lparr>lab = ''IALS'', botName = ''Privacy-LLM'', ownerEmail = ''prof@umass.edu'',
         description = Some [], baseModel = [], embedModel = ''nomic-embed-text'',
         temperature = Finite (2 / 10), topP = Finite (95 / 100)\<rparr>) = []"
  by code_simp


end
